theory Spec2Isabelle
  imports Main
begin

section \<open>The B+tree index of miniDB (btree.py)\<close>

text \<open>
  A shallow embedding of the classes \<^verbatim>\<open>Node\<close> and \<^verbatim>\<open>Btree\<close> of btree.py.

  Keys are Python integers (\<^typ>\<open>int\<close>), as in the driver script vsmdb.py. Pointers are
  natural numbers: in a leaf they are row indexes, in an internal node they are indexes
  into \<^verbatim>\<open>Btree.nodes\<close>. A node reference held by the Python code (\<^verbatim>\<open>node\<close>,
  \<^verbatim>\<open>right\<close>, \<^verbatim>\<open>target_node\<close>) is modelled by the node's index in the arena, and every
  in-place mutation by an update of the arena at that index, in the order of the source.

  The modelled state is one \<^verbatim>\<open>Btree\<close> object. \<^verbatim>\<open>Node.__init__\<close> has the mutable default
  arguments \<^verbatim>\<open>values=[]\<close> and \<^verbatim>\<open>ptrs=[]\<close>; the only node built with them is the root leaf
  of the first insertion, and within one tree no second node ever shares these two lists
  (a split rebinds \<^verbatim>\<open>node.values\<close> and \<^verbatim>\<open>node.ptrs\<close> to fresh slices). The model takes
  the two default lists to be empty when the tree is created, as they are for the first
  tree of a process.
\<close>

subsection \<open>Exceptions and outcomes\<close>

text \<open>
  The uncaught Python exceptions that the modelled methods can raise. \<^verbatim>\<open>TypeError\<close> is
  what \<^verbatim>\<open>self.nodes[None]\<close> raises; \<^verbatim>\<open>IndexError\<close> is a list index out of range.
\<close>

datatype error = TypeError | IndexError

text \<open>
  A method call yields the raised exception or the returned value, together with the
  tree as the call leaves it. The \<^verbatim>\<open>while\<close> loops of the source and the recursion of
  \<^verbatim>\<open>split\<close> need not terminate on an arbitrary arena, so they run on fuel and the whole
  outcome is \<^const>\<open>None\<close> when the fuel does not suffice.
\<close>

subsection \<open>Node\<close>

record node =
  node_b :: nat
  values_n :: "int list"
  ptrs :: "nat list"
  left_sibling :: "nat option"
  right_sibling :: "nat option"
  parent :: "nat option"
  is_leaf :: bool

definition Node :: "nat \<Rightarrow> int list \<Rightarrow> nat list \<Rightarrow> nat option \<Rightarrow> nat option \<Rightarrow> nat option \<Rightarrow> bool \<Rightarrow> node" where
  "Node bf vs ps ls rs par leaf =
     \<lparr>node_b = bf, values_n = vs, ptrs = ps, left_sibling = ls, right_sibling = rs,
      parent = par, is_leaf = leaf\<rparr>"

text \<open>
  Both \<^verbatim>\<open>Node.find\<close> and \<^verbatim>\<open>Node.insert\<close> scan \<^verbatim>\<open>enumerate(self.values)\<close> for the first
  index whose value is strictly greater than the given one.
\<close>

fun first_greater :: "int \<Rightarrow> int list \<Rightarrow> nat option" where
  "first_greater v [] = None"
| "first_greater v (existing_val # rest) =
     (if v < existing_val then Some 0 else map_option Suc (first_greater v rest))"

text \<open>
  \<^verbatim>\<open>Node.find(value, return_ops=True)\<close>: on a leaf it returns Python's \<^verbatim>\<open>None\<close>
  (here \<^term>\<open>Inr None\<close>); otherwise the chosen child and the number of comparisons.
  \<^verbatim>\<open>self.ptrs[index]\<close> and \<^verbatim>\<open>self.ptrs[-1]\<close> raise when the position does not exist.
\<close>

definition node_find :: "node \<Rightarrow> int \<Rightarrow> error + (nat \<times> nat) option" where
  "node_find nd v =
     (if is_leaf nd then Inr None
      else case first_greater v (values_n nd) of
        Some index \<Rightarrow>
          if index < length (ptrs nd) then Inr (Some (ptrs nd ! index, index + 1))
          else Inl IndexError
      | None \<Rightarrow>
          if ptrs nd = [] then Inl IndexError
          else Inr (Some (last (ptrs nd), length (values_n nd))))"

text \<open>\<^verbatim>\<open>list.insert(i, x)\<close> for \<^verbatim>\<open>i >= 0\<close>: a position past the end appends.\<close>

definition list_insert :: "nat \<Rightarrow> 'a \<Rightarrow> 'a list \<Rightarrow> 'a list" where
  "list_insert i x xs = take i xs @ x # drop i xs"

text \<open>
  \<^verbatim>\<open>Node.insert(value, ptr, ptr1=None)\<close>. The value goes to position \<^verbatim>\<open>index\<close>, the
  pointer to position \<^verbatim>\<open>index + 1\<close>, in leaves and internal nodes alike. \<^verbatim>\<open>if ptr1:\<close> is
  false for \<^verbatim>\<open>None\<close> and for \<^verbatim>\<open>0\<close>.
\<close>

definition node_insert :: "node \<Rightarrow> int \<Rightarrow> nat \<Rightarrow> nat option \<Rightarrow> node" where
  "node_insert nd v ptr ptr1 =
     (case first_greater v (values_n nd) of
        Some index \<Rightarrow>
          nd\<lparr>values_n := list_insert index v (values_n nd),
             ptrs := (let ps = list_insert (index + 1) ptr (ptrs nd) in
                      case ptr1 of
                        None \<Rightarrow> ps
                      | Some p1 \<Rightarrow> if p1 \<noteq> 0 then list_insert (index + 1) p1 ps else ps)\<rparr>
      | None \<Rightarrow>
          nd\<lparr>values_n := values_n nd @ [v],
             ptrs := (let ps = ptrs nd @ [ptr] in
                      case ptr1 of
                        None \<Rightarrow> ps
                      | Some p1 \<Rightarrow> if p1 \<noteq> 0 then ps @ [p1] else ps)\<rparr>)"

subsection \<open>Btree: construction and search\<close>

record btree =
  b :: nat
  nodes :: "node list"
  root :: "nat option"

type_synonym 'a outcome = "((error + 'a) \<times> btree) option"

definition Btree :: "nat \<Rightarrow> btree" where
  "Btree bf = \<lparr>b = bf, nodes = [], root = None\<rparr>"

text \<open>
  The loop of \<^verbatim>\<open>Btree._search\<close>: \<^verbatim>\<open>idx\<close> is the arena index of \<^verbatim>\<open>node\<close>. The loop body
  is never entered on a leaf, so the unpacking of \<^verbatim>\<open>None\<close> (a \<^verbatim>\<open>TypeError\<close>) cannot
  happen; the case is kept for the shape of the source.
\<close>

fun search_loop :: "nat \<Rightarrow> node list \<Rightarrow> int \<Rightarrow> nat \<Rightarrow> nat \<Rightarrow> (error + nat \<times> nat) option" where
  "search_loop 0 ns v idx ops =
     (if is_leaf (ns ! idx) then Some (Inr (idx, ops)) else None)"
| "search_loop (Suc fuel) ns v idx ops =
     (if is_leaf (ns ! idx) then Some (Inr (idx, ops))
      else case node_find (ns ! idx) v of
        Inl e \<Rightarrow> Some (Inl e)
      | Inr None \<Rightarrow> Some (Inl TypeError)
      | Inr (Some (idx', ops1)) \<Rightarrow>
          if idx' < length ns then search_loop fuel ns v idx' (ops + ops1)
          else Some (Inl IndexError))"

text \<open>
  \<^verbatim>\<open>Btree._search(value, return_ops=True)\<close>. \<^verbatim>\<open>self.nodes.index(node)\<close> is the index of
  the node object reached, since \<^verbatim>\<open>Node\<close> defines no equality of its own. The tree is
  handed back as it was received: the method assigns nothing.
\<close>

definition btree_search :: "nat \<Rightarrow> btree \<Rightarrow> int \<Rightarrow> (nat \<times> nat) outcome" where
  "btree_search fuel t v =
     (case root t of
        None \<Rightarrow> Some (Inl TypeError, t)
      | Some r \<Rightarrow>
          if r < length (nodes t) then
            (case search_loop fuel (nodes t) v r 0 of
               None \<Rightarrow> None
             | Some res \<Rightarrow> Some (res, t))
          else Some (Inl IndexError, t))"

subsection \<open>Btree.split and Btree.insert\<close>

text \<open>The loop \<^verbatim>\<open>for ptr in right_ptrs: self.nodes[ptr].parent = len(self.nodes)\<close>.\<close>

fun reparent :: "nat \<Rightarrow> nat list \<Rightarrow> node list \<Rightarrow> (error + unit) \<times> node list" where
  "reparent new_id [] ns = (Inr (), ns)"
| "reparent new_id (p # ps) ns =
     (if p < length ns then reparent new_id ps (ns[p := (ns ! p)\<lparr>parent := Some new_id\<rparr>])
      else (Inl IndexError, ns))"

text \<open>
  The first part of \<^verbatim>\<open>Btree.split\<close>, up to \<^verbatim>\<open>self.nodes.append(right)\<close>: it builds the
  new right node, relinks siblings or children, cuts the old node down to its left half
  and appends the right node. It returns \<^verbatim>\<open>new_parent_value\<close>.
\<close>

definition split_halves :: "btree \<Rightarrow> nat \<Rightarrow> (error + int) \<times> btree" where
  "split_halves t node_id =
     (let ns = nodes t in
      if \<not> node_id < length ns then (Inl IndexError, t)
      else let nd = ns ! node_id in
      if values_n nd = [] then (Inl IndexError, t)
      else
        let new_parent_value = values_n nd ! (length (values_n nd) div 2);
            new_id = length ns;
            (r, ns1) =
              (if is_leaf nd then
                 let right_values = drop (length (values_n nd) div 2) (values_n nd);
                     right_ptrs = drop (length (ptrs nd) div 2) (ptrs nd);
                     right = Node (b t) right_values right_ptrs
                               (Some node_id) (right_sibling nd) (parent nd) (is_leaf nd)
                 in case right_sibling nd of
                      None \<Rightarrow>
                        (Inr right, ns[node_id := (ns ! node_id)\<lparr>right_sibling := Some new_id\<rparr>])
                    | Some rs \<Rightarrow>
                        if rs < length ns then
                          let ns' = ns[rs := (ns ! rs)\<lparr>left_sibling := Some new_id\<rparr>]
                          in (Inr right,
                              ns'[node_id := (ns' ! node_id)\<lparr>right_sibling := Some new_id\<rparr>])
                        else (Inl IndexError, ns)
               else
                 let right_values = drop (length (values_n nd) div 2 + 1) (values_n nd);
                     right_ptrs =
                       (if b t mod 2 = 1 then drop (length (ptrs nd) div 2) (ptrs nd)
                        else drop (length (ptrs nd) div 2 + 1) (ptrs nd));
                     right = Node (b t) right_values right_ptrs None None (parent nd) (is_leaf nd);
                     ns' = ns[node_id := (ns ! node_id)\<lparr>right_sibling := None\<rparr>]
                 in case reparent new_id right_ptrs ns' of
                      (Inl e, ns'') \<Rightarrow> (Inl e, ns'')
                    | (Inr u, ns'') \<Rightarrow> (Inr right, ns''))
        in case r of
             Inl e \<Rightarrow> (Inl e, t\<lparr>nodes := ns1\<rparr>)
           | Inr right \<Rightarrow>
               let cur = ns1 ! node_id;
                   left = cur\<lparr>values_n := take (length (values_n cur) div 2) (values_n cur),
                              ptrs := (if b t mod 2 = 1
                                       then take (length (ptrs cur) div 2) (ptrs cur)
                                       else take (length (ptrs cur) div 2 + 1) (ptrs cur))\<rparr>
               in (Inr new_parent_value, t\<lparr>nodes := ns1[node_id := left] @ [right]\<rparr>))"

text \<open>
  \<^verbatim>\<open>Btree.split\<close>: the halves, then the promotion of \<^verbatim>\<open>new_parent_value\<close> into a new
  root or into the existing parent, which is split in turn when it reaches \<^verbatim>\<open>b\<close> values.
  Every call of \<^verbatim>\<open>split\<close> takes one unit of fuel.
\<close>

fun btree_split :: "nat \<Rightarrow> btree \<Rightarrow> nat \<Rightarrow> unit outcome" where
  "btree_split 0 t node_id = None"
| "btree_split (Suc fuel) t node_id =
     (case split_halves t node_id of
        (Inl e, t1) \<Rightarrow> Some (Inl e, t1)
      | (Inr new_parent_value, t1) \<Rightarrow>
          let ns = nodes t1 in
          (case parent (ns ! node_id) of
             None \<Rightarrow>
               let par = Node (b t1) [new_parent_value] [node_id, length ns - 1]
                           None None (parent (ns ! node_id)) False;
                   ns1 = ns @ [par];
                   r = length ns1 - 1;
                   ns2 = ns1[node_id := (ns1 ! node_id)\<lparr>parent := Some r\<rparr>];
                   ns3 = ns2[length ns - 1 := (ns2 ! (length ns - 1))\<lparr>parent := Some r\<rparr>]
               in Some (Inr (), t1\<lparr>nodes := ns3, root := Some r\<rparr>)
           | Some p \<Rightarrow>
               if p < length ns then
                 let ns1 = ns[p := node_insert (ns ! p) new_parent_value (length ns - 1) None];
                     t2 = t1\<lparr>nodes := ns1\<rparr>
                 in if length (values_n (ns1 ! p)) = b t2 then btree_split fuel t2 p
                    else Some (Inr (), t2)
               else Some (Inl IndexError, t1)))"

text \<open>
  \<^verbatim>\<open>Btree.insert(value, ptr)\<close>; the third parameter \<^verbatim>\<open>rptr\<close> of the source is never read.
  The index that \<^verbatim>\<open>_search\<close> returns is always inside the arena.
\<close>

definition btree_insert :: "nat \<Rightarrow> btree \<Rightarrow> int \<Rightarrow> nat \<Rightarrow> unit outcome" where
  "btree_insert fuel t v ptr =
     (let t0 = (if root t = None
                then t\<lparr>nodes := nodes t @ [Node (b t) [] [] None None None True], root := Some 0\<rparr>
                else t)
      in case btree_search fuel t0 v of
           None \<Rightarrow> None
         | Some (Inl e, t1) \<Rightarrow> Some (Inl e, t1)
         | Some (Inr (index, ops), t1) \<Rightarrow>
             let t2 = t1\<lparr>nodes := (nodes t1)[index := node_insert (nodes t1 ! index) v ptr None]\<rparr>
             in if length (values_n (nodes t2 ! index)) = b t2 then btree_split fuel t2 index
                else Some (Inr (), t2))"

text \<open>A sequence of \<^verbatim>\<open>insert\<close> calls, as in vsmdb.py; an exception ends the sequence.\<close>

fun inserts :: "nat \<Rightarrow> btree \<Rightarrow> (int \<times> nat) list \<Rightarrow> unit outcome" where
  "inserts fuel t [] = Some (Inr (), t)"
| "inserts fuel t ((v, ptr) # rest) =
     (case btree_insert fuel t v ptr of
        None \<Rightarrow> None
      | Some (Inl e, t1) \<Rightarrow> Some (Inl e, t1)
      | Some (Inr u, t1) \<Rightarrow> inserts fuel t1 rest)"

subsection \<open>Btree.find\<close>

text \<open>\<^verbatim>\<open>list.index(x)\<close>: the first position of \<^verbatim>\<open>x\<close>, or a \<^verbatim>\<open>ValueError\<close> (here \<^const>\<open>None\<close>).\<close>

fun list_index :: "'a \<Rightarrow> 'a list \<Rightarrow> nat option" where
  "list_index x [] = None"
| "list_index x (y # ys) = (if y = x then Some 0 else map_option Suc (list_index x ys))"

text \<open>
  The loop \<^verbatim>\<open>for idx, node_value in enumerate(target_node.values)\<close> of the four range
  operators; \<^verbatim>\<open>cmp\<close> is the comparison of the stored value with the user's value.
\<close>

fun scan_leaf :: "(int \<Rightarrow> bool) \<Rightarrow> (nat \<times> int) list \<Rightarrow> nat list \<Rightarrow> nat list \<Rightarrow> error + nat list" where
  "scan_leaf cmp [] ps results = Inr results"
| "scan_leaf cmp ((idx, node_value) # rest) ps results =
     (if cmp node_value then
        (if idx < length ps then scan_leaf cmp rest ps (results @ [ps ! idx])
         else Inl IndexError)
      else scan_leaf cmp rest ps results)"

text \<open>
  The loop \<^verbatim>\<open>while target_node.right_sibling is not None\<close> (and its mirror image with
  \<^verbatim>\<open>left_sibling\<close>); \<^verbatim>\<open>sibling\<close> selects the link that is followed.
\<close>

fun walk :: "(node \<Rightarrow> nat option) \<Rightarrow> nat \<Rightarrow> node list \<Rightarrow> node \<Rightarrow> nat list \<Rightarrow> (error + nat list) option" where
  "walk sibling 0 ns target_node results =
     (case sibling target_node of None \<Rightarrow> Some (Inr results) | Some s \<Rightarrow> None)"
| "walk sibling (Suc fuel) ns target_node results =
     (case sibling target_node of
        None \<Rightarrow> Some (Inr results)
      | Some s \<Rightarrow>
          if s < length ns then walk sibling fuel ns (ns ! s) (results @ ptrs (ns ! s))
          else Some (Inl IndexError))"

text \<open>
  One of the four blocks \<^verbatim>\<open>if operator == '>'\<close>, \<^verbatim>\<open>'>='\<close>, \<^verbatim>\<open>'<'\<close>, \<^verbatim>\<open>'<='\<close>, which
  differ in the comparison and in the sibling link only.
\<close>

definition range_block :: "(int \<Rightarrow> bool) \<Rightarrow> (node \<Rightarrow> nat option) \<Rightarrow> nat \<Rightarrow> btree \<Rightarrow> node \<Rightarrow> nat \<Rightarrow> (nat list \<times> nat) outcome" where
  "range_block cmp sibling fuel t target_node ops =
     (case scan_leaf cmp (enumerate 0 (values_n target_node)) (ptrs target_node) [] of
        Inl e \<Rightarrow> Some (Inl e, t)
      | Inr results \<Rightarrow>
          (case walk sibling fuel (nodes t) target_node results of
             None \<Rightarrow> None
           | Some (Inl e) \<Rightarrow> Some (Inl e, t)
           | Some (Inr results') \<Rightarrow>
               Some (Inr (results', ops + length (values_n target_node)), t)))"

text \<open>
  \<^verbatim>\<open>Btree.find(operator, value)\<close>. The value returned is the list \<^verbatim>\<open>results\<close> together
  with the number \<^verbatim>\<open>ops\<close> that the method prints. The five \<^verbatim>\<open>if\<close> blocks of the source
  test the same string against five different literals, so at most one of them runs; with
  any other string none runs and the empty list is returned. In the \<^verbatim>\<open>'=='\<close> block the
  bare \<^verbatim>\<open>except\<close> swallows both the \<^verbatim>\<open>ValueError\<close> of \<^verbatim>\<open>index\<close> and an \<^verbatim>\<open>IndexError\<close>.
\<close>

definition btree_find :: "nat \<Rightarrow> btree \<Rightarrow> string \<Rightarrow> int \<Rightarrow> (nat list \<times> nat) outcome" where
  "btree_find fuel t operator v =
     (case btree_search fuel t v of
        None \<Rightarrow> None
      | Some (Inl e, t1) \<Rightarrow> Some (Inl e, t1)
      | Some (Inr (leaf_idx, ops), t1) \<Rightarrow>
          let target_node = nodes t1 ! leaf_idx in
          if operator = ''=='' then
            Some (Inr ((case list_index v (values_n target_node) of
                          None \<Rightarrow> []
                        | Some i \<Rightarrow> if i < length (ptrs target_node)
                                    then [ptrs target_node ! i] else []), ops), t1)
          else if operator = ''>'' then
            range_block (\<lambda>node_value. node_value > v) right_sibling fuel t1 target_node ops
          else if operator = ''>='' then
            range_block (\<lambda>node_value. node_value \<ge> v) right_sibling fuel t1 target_node ops
          else if operator = ''<'' then
            range_block (\<lambda>node_value. node_value < v) left_sibling fuel t1 target_node ops
          else if operator = ''<='' then
            range_block (\<lambda>node_value. node_value \<le> v) left_sibling fuel t1 target_node ops
          else Some (Inr ([], ops), t1))"

text \<open>The list that a call of \<^verbatim>\<open>find\<close> returns, when it returns one.\<close>

definition find_results :: "nat \<Rightarrow> btree \<Rightarrow> string \<Rightarrow> int \<Rightarrow> nat list option" where
  "find_results fuel t operator v =
     (case btree_find fuel t operator v of
        Some (Inr (results, ops), t1) \<Rightarrow> Some results
      | _ \<Rightarrow> None)"

subsection \<open>Btree.delete\<close>

text \<open>
  The loop of \<^verbatim>\<open>Btree.delete\<close> over \<^verbatim>\<open>enumerate(node_.values)\<close>, with the current
  \<^verbatim>\<open>node_.ptrs\<close> and the flag \<^verbatim>\<open>temp\<close>; it yields the lines printed (or the exception)
  and the final \<^verbatim>\<open>node_.ptrs\<close>.

  Where value and pointer match, the source has three branches. With more than one
  pointer in the node it pops the first occurrence of \<^verbatim>\<open>ptr\<close> from \<^verbatim>\<open>node_.ptrs\<close> and
  leaves \<^verbatim>\<open>node_.values\<close> alone. The test \<^verbatim>\<open>node_ == self.root\<close> compares a \<^verbatim>\<open>Node\<close>
  with an integer and is never true. In the last branch \<^verbatim>\<open>node_.ptrs\<close> has exactly one
  element (position \<^verbatim>\<open>i = 0\<close>): the pop empties it and \<^verbatim>\<open>del node_.ptrs[i]\<close> raises
  \<^verbatim>\<open>IndexError\<close>, so that \<^verbatim>\<open>node_.values\<close> is never changed and \<^verbatim>\<open>deleteEntry\<close> is
  never reached.
\<close>

fun delete_loop :: "int \<Rightarrow> nat \<Rightarrow> (nat \<times> int) list \<Rightarrow> nat list \<Rightarrow> bool \<Rightarrow> (error + string list) \<times> nat list" where
  "delete_loop v ptr [] ps temp =
     (Inr (if temp then [] else [''Value not in Tree'']), ps)"
| "delete_loop v ptr ((i, item) # rest) ps temp =
     (if item = v then
        (if i < length ps then
           (if ptr = ps ! i then
              (if length ps > 1 then delete_loop v ptr rest (remove1 ptr ps) True
               else (Inl IndexError, remove1 ptr ps))
            else (Inr [''Value not in ptr''], ps))
         else (Inl IndexError, ps))
      else delete_loop v ptr rest ps temp)"

text \<open>\<^verbatim>\<open>Btree.delete(value, ptr)\<close>; the value returned is the list of lines printed.\<close>

definition btree_delete :: "nat \<Rightarrow> btree \<Rightarrow> int \<Rightarrow> nat \<Rightarrow> (string list) outcome" where
  "btree_delete fuel t v ptr =
     (case btree_search fuel t v of
        None \<Rightarrow> None
      | Some (Inl e, t1) \<Rightarrow> Some (Inl e, t1)
      | Some (Inr (index, ops), t1) \<Rightarrow>
          let nd = nodes t1 ! index;
              (r, ps) = delete_loop v ptr (enumerate 0 (values_n nd)) (ptrs nd) False
          in Some (r, t1\<lparr>nodes := (nodes t1)[index := nd\<lparr>ptrs := ps\<rparr>]\<rparr>))"

subsection \<open>The leaf chain\<close>

text \<open>
  The nodes that the sibling loop of \<^verbatim>\<open>find\<close> visits after \<^verbatim>\<open>target_node\<close>, in the
  order of the visit.
\<close>

fun sibling_chain :: "(node \<Rightarrow> nat option) \<Rightarrow> nat \<Rightarrow> node list \<Rightarrow> node \<Rightarrow> (error + node list) option" where
  "sibling_chain sibling 0 ns target_node =
     (case sibling target_node of None \<Rightarrow> Some (Inr []) | Some s \<Rightarrow> None)"
| "sibling_chain sibling (Suc fuel) ns target_node =
     (case sibling target_node of
        None \<Rightarrow> Some (Inr [])
      | Some s \<Rightarrow>
          if s < length ns then
            (case sibling_chain sibling fuel ns (ns ! s) of
               None \<Rightarrow> None
             | Some (Inl e) \<Rightarrow> Some (Inl e)
             | Some (Inr chain) \<Rightarrow> Some (Inr (ns ! s # chain)))
          else Some (Inl IndexError))"

text \<open>
  The walk that the specification describes: from the root down the first child pointers
  to the leftmost leaf, then along \<^verbatim>\<open>right_sibling\<close> to the end, pairing the values of
  each visited node with its pointers position by position.
\<close>

fun leftmost_leaf :: "nat \<Rightarrow> node list \<Rightarrow> nat \<Rightarrow> nat option" where
  "leftmost_leaf 0 ns idx = (if idx < length ns \<and> is_leaf (ns ! idx) then Some idx else None)"
| "leftmost_leaf (Suc fuel) ns idx =
     (if idx < length ns then
        (if is_leaf (ns ! idx) then Some idx
         else case ptrs (ns ! idx) of [] \<Rightarrow> None | p # ps \<Rightarrow> leftmost_leaf fuel ns p)
      else None)"

definition leaf_chain :: "nat \<Rightarrow> btree \<Rightarrow> node list option" where
  "leaf_chain fuel t =
     (case root t of
        None \<Rightarrow> Some []
      | Some r \<Rightarrow>
          (case leftmost_leaf fuel (nodes t) r of
             None \<Rightarrow> None
           | Some l \<Rightarrow>
               (case sibling_chain right_sibling fuel (nodes t) (nodes t ! l) of
                  Some (Inr chain) \<Rightarrow> Some (nodes t ! l # chain)
                | _ \<Rightarrow> None)))"

definition chain_pairs :: "node list \<Rightarrow> (int \<times> nat) list" where
  "chain_pairs chain = concat (map (\<lambda>nd. zip (values_n nd) (ptrs nd)) chain)"

subsection \<open>The insertions of vsmdb.py\<close>

definition scenario :: "(int \<times> nat) list" where
  "scenario = [(5, 0), (12, 1), (7, 2), (3, 3), (2, 4), (9, 5)]"

text \<open>The tree that a call leaves behind, and whether the call returned normally.\<close>

definition tree_after :: "'a outcome \<Rightarrow> btree" where
  "tree_after out = snd (the out)"

definition returned :: "'a outcome \<Rightarrow> bool" where
  "returned out = (case out of Some (Inr x, t) \<Rightarrow> True | _ \<Rightarrow> False)"

text \<open>
  The trees that the theorems below are evaluated on: the scenario of vsmdb.py after two,
  three and six insertions; inside the third insertion, the arena after \<^verbatim>\<open>Node.insert\<close> and
  before \<^verbatim>\<open>split\<close>; a tree with an even branching factor; and a tree of one leaf filled
  in ascending key order.
\<close>

definition tree2 :: btree where
  "tree2 = tree_after (inserts 5 (Btree 3) (take 2 scenario))"

definition tree3 :: btree where
  "tree3 = tree_after (inserts 5 (Btree 3) (take 3 scenario))"

definition tree6 :: btree where
  "tree6 = tree_after (inserts 5 (Btree 3) scenario)"

definition overfull_leaf :: btree where
  "overfull_leaf = tree2\<lparr>nodes := (nodes tree2)[0 := node_insert (nodes tree2 ! 0) 7 2 None]\<rparr>"

definition tree_even :: btree where
  "tree_even = tree_after (inserts 5 (Btree 4) [(1, 0), (2, 1), (3, 2), (4, 3)])"

definition tree_asc :: btree where
  "tree_asc = tree_after (inserts 5 (Btree 5) [(1, 0), (2, 1), (3, 2)])"

text \<open>
  Two arenas at the moment \<^verbatim>\<open>split\<close> is called on an internal node that holds \<^verbatim>\<open>b\<close>
  values and \<^verbatim>\<open>b + 1\<close> children. The first is the arena of the scenario inside the sixth
  insertion, when the root has received its third value (\<^verbatim>\<open>b = 3\<close>); the second has
  \<^verbatim>\<open>b = 4\<close> and a root over five leaves.
\<close>

definition overfull_odd :: btree where
  "overfull_odd =
     \<lparr>b = 3,
      nodes = [Node 3 [2] [0] None (Some 3) (Some 2) True,
               Node 3 [7] [1] (Some 3) (Some 4) (Some 2) True,
               Node 3 [3, 7, 9] [0, 3, 1, 4] None None None False,
               Node 3 [3, 5] [4, 3] (Some 0) (Some 1) (Some 2) True,
               Node 3 [9, 12] [2, 5] (Some 1) None (Some 2) True],
      root = Some 2\<rparr>"

definition overfull_even :: btree where
  "overfull_even =
     \<lparr>b = 4,
      nodes = [Node 4 [1, 2] [0, 1] None (Some 1) (Some 5) True,
               Node 4 [10, 11] [2, 3] (Some 0) (Some 2) (Some 5) True,
               Node 4 [20, 21] [4, 5] (Some 1) (Some 3) (Some 5) True,
               Node 4 [30, 31] [6, 7] (Some 2) (Some 4) (Some 5) True,
               Node 4 [40, 41] [8, 9] (Some 3) None (Some 5) True,
               Node 4 [10, 20, 30, 40] [0, 1, 2, 3, 4] None None None False],
      root = Some 5\<rparr>"

text \<open>
  An arena of height 3 at the moment \<^verbatim>\<open>split\<close> is called on the internal node 5, which
  holds \<^verbatim>\<open>b = 3\<close> values and four children and has the root 6 as its parent.
\<close>

definition overfull_inner :: btree where
  "overfull_inner =
     \<lparr>b = 3,
      nodes = [Node 3 [2] [0] None (Some 3) (Some 2) True,
               Node 3 [7] [1] (Some 3) (Some 4) (Some 5) True,
               Node 3 [3] [0, 3] None None (Some 6) False,
               Node 3 [3, 5] [4, 3] (Some 0) (Some 1) (Some 2) True,
               Node 3 [9, 10] [2, 5] (Some 1) (Some 7) (Some 5) True,
               Node 3 [9, 12, 15] [1, 4, 7, 8] None None (Some 6) False,
               Node 3 [7] [2, 5] None None None False,
               Node 3 [12, 13] [6, 7] (Some 4) (Some 8) (Some 5) True,
               Node 3 [15, 16] [8, 9] (Some 7) None (Some 5) True],
      root = Some 6\<rparr>"

subsection \<open>Notions of the specification\<close>

text \<open>
  The comparison that each range operator stands for, the sibling link its loop follows,
  the pointers of a leaf at the positions whose value satisfies a comparison, and the
  pairs of a chain of leaves whose key satisfies it.
\<close>

definition compare_with :: "string \<Rightarrow> int \<Rightarrow> int \<Rightarrow> bool" where
  "compare_with operator v node_value =
     (if operator = ''>'' then node_value > v
      else if operator = ''>='' then node_value \<ge> v
      else if operator = ''<'' then node_value < v
      else if operator = ''<='' then node_value \<le> v
      else False)"

definition walk_link :: "string \<Rightarrow> node \<Rightarrow> nat option" where
  "walk_link operator =
     (if operator = ''<'' \<or> operator = ''<='' then left_sibling else right_sibling)"

definition leaf_matches :: "(int \<Rightarrow> bool) \<Rightarrow> node \<Rightarrow> nat list" where
  "leaf_matches cmp nd = map snd (filter (\<lambda>(k, p). cmp k) (zip (values_n nd) (ptrs nd)))"

definition matching_pairs :: "(int \<Rightarrow> bool) \<Rightarrow> node list \<Rightarrow> (int \<times> nat) list" where
  "matching_pairs cmp chain = filter (\<lambda>(k, p). cmp k) (chain_pairs chain)"

text \<open>
  The keys, pointers and kind of a node, the fields that a split divides; and the cut
  position that \<^verbatim>\<open>split\<close> computes for the pointers from the parity of \<^verbatim>\<open>b\<close>.
\<close>

definition content :: "node \<Rightarrow> int list \<times> nat list \<times> bool" where
  "content nd = (values_n nd, ptrs nd, is_leaf nd)"

definition ptr_cut :: "nat \<Rightarrow> nat \<Rightarrow> nat" where
  "ptr_cut bf n = (if bf mod 2 = 1 then n div 2 else n div 2 + 1)"

text \<open>
  Consistent links: every node has a rank \<^verbatim>\<open>h\<close>, at most \<^verbatim>\<open>H\<close>; the parent of a node is an
  internal node of the arena of a higher rank, and the children of an internal node are
  nodes of the arena of a lower rank. So no node is its own ancestor, and a chain of
  parents from a node of rank \<^verbatim>\<open>r\<close> has at most \<^verbatim>\<open>H - r\<close> steps.
\<close>

definition ranked_links :: "(nat \<Rightarrow> nat) \<Rightarrow> nat \<Rightarrow> btree \<Rightarrow> bool" where
  "ranked_links h H t =
     (\<forall>x \<in> set [0..<length (nodes t)].
        h x \<le> H \<and>
        (case parent (nodes t ! x) of
           None \<Rightarrow> True
         | Some p \<Rightarrow> p < length (nodes t) \<and> \<not> is_leaf (nodes t ! p) \<and> h x < h p) \<and>
        (\<not> is_leaf (nodes t ! x) \<longrightarrow>
           (\<forall>c \<in> set (ptrs (nodes t ! x)). c < length (nodes t) \<and> h c < h x)))"

text \<open>
  The leaf that the search locates together with the leaves that the sibling walk visits,
  listed from left to right.
\<close>

definition walked_leaves :: "string \<Rightarrow> node \<Rightarrow> node list \<Rightarrow> node list" where
  "walked_leaves operator target_node chain =
     (if operator = ''<'' \<or> operator = ''<='' then rev chain @ [target_node]
      else target_node # chain)"

section \<open>Properties\<close>

subsection \<open>Auxiliary facts\<close>

lemma btree_search_state: "btree_search fuel t v = Some (r, t1) \<Longrightarrow> t1 = t"
  by (auto simp: btree_search_def split: option.splits if_splits)

lemma range_block_state: "range_block cmp sibling fuel t nd ops = Some (r, t1) \<Longrightarrow> t1 = t"
  by (auto simp: range_block_def split: sum.splits option.splits)

lemma ranked_links_iff:
  "ranked_links h H t \<longleftrightarrow>
     (\<forall>x < length (nodes t).
        h x \<le> H \<and>
        (\<forall>p. parent (nodes t ! x) = Some p \<longrightarrow>
           p < length (nodes t) \<and> \<not> is_leaf (nodes t ! p) \<and> h x < h p) \<and>
        (\<not> is_leaf (nodes t ! x) \<longrightarrow>
           (\<forall>c \<in> set (ptrs (nodes t ! x)). c < length (nodes t) \<and> h c < h x)))"
proof -
  have c: "\<And>x. (case parent (nodes t ! x) of None \<Rightarrow> True
             | Some p \<Rightarrow> p < length (nodes t) \<and> \<not> is_leaf (nodes t ! p) \<and> h x < h p) =
          (\<forall>p. parent (nodes t ! x) = Some p \<longrightarrow>
             p < length (nodes t) \<and> \<not> is_leaf (nodes t ! p) \<and> h x < h p)"
    by (simp split: option.split)
  show ?thesis unfolding ranked_links_def c by (simp add: Ball_def)
qed

lemma ranked_linksD:
  assumes "ranked_links h H t" "x < length (nodes t)"
  shows "h x \<le> H"
    and "parent (nodes t ! x) = Some p \<Longrightarrow> p < length (nodes t) \<and> \<not> is_leaf (nodes t ! p) \<and> h x < h p"
    and "\<not> is_leaf (nodes t ! x) \<Longrightarrow> c \<in> set (ptrs (nodes t ! x)) \<Longrightarrow> c < length (nodes t) \<and> h c < h x"
  using assms unfolding ranked_links_iff by blast+

lemma ranked_linksI:
  assumes "\<And>x. x < length (nodes t) \<Longrightarrow> h x \<le> H"
    and "\<And>x p. x < length (nodes t) \<Longrightarrow> parent (nodes t ! x) = Some p \<Longrightarrow>
           p < length (nodes t) \<and> \<not> is_leaf (nodes t ! p) \<and> h x < h p"
    and "\<And>x c. x < length (nodes t) \<Longrightarrow> \<not> is_leaf (nodes t ! x) \<Longrightarrow> c \<in> set (ptrs (nodes t ! x)) \<Longrightarrow>
           c < length (nodes t) \<and> h c < h x"
  shows "ranked_links h H t"
  unfolding ranked_links_iff using assms by blast

lemma reparent_nth:
  "\<forall>p \<in> set ps. p < length ns \<Longrightarrow>
   \<exists>ns'. reparent new_id ps ns = (Inr (), ns') \<and> length ns' = length ns \<and>
     (\<forall>i < length ns. ns' ! i = (if i \<in> set ps then (ns ! i)\<lparr>parent := Some new_id\<rparr> else ns ! i))"
proof (induction ps arbitrary: ns)
  case Nil
  then show ?case by simp
next
  case (Cons p ps)
  let ?ns1 = "ns[p := (ns ! p)\<lparr>parent := Some new_id\<rparr>]"
  from Cons.prems have p: "p < length ns" and rest: "\<forall>q \<in> set ps. q < length ?ns1" by simp_all
  from Cons.IH[OF rest] obtain ns' where
    r: "reparent new_id ps ?ns1 = (Inr (), ns')" and l: "length ns' = length ?ns1"
    and nth: "\<forall>i < length ?ns1. ns' ! i =
        (if i \<in> set ps then (?ns1 ! i)\<lparr>parent := Some new_id\<rparr> else ?ns1 ! i)" by blast
  have "\<forall>i < length ns. ns' ! i =
      (if i \<in> set (p # ps) then (ns ! i)\<lparr>parent := Some new_id\<rparr> else ns ! i)"
  proof (intro allI impI)
    fix i assume i: "i < length ns"
    with nth have "ns' ! i = (if i \<in> set ps then (?ns1 ! i)\<lparr>parent := Some new_id\<rparr> else ?ns1 ! i)"
      by simp
    with i show "ns' ! i = (if i \<in> set (p # ps) then (ns ! i)\<lparr>parent := Some new_id\<rparr> else ns ! i)"
      by (cases "i = p") (simp_all add: nth_list_update)
  qed
  with r l p show ?case by simp
qed

lemma split_halves_internal:
  assumes id: "q < length (nodes t)"
    and internal: "\<not> is_leaf (nodes t ! q)"
    and ne: "values_n (nodes t ! q) \<noteq> []"
    and valid: "\<forall>c \<in> set (ptrs (nodes t ! q)). c < length (nodes t) \<and> c \<noteq> q"
    and k: "k = (if b t mod 2 = 1 then length (ptrs (nodes t ! q)) div 2
                 else length (ptrs (nodes t ! q)) div 2 + 1)"
  shows "\<exists>t1. split_halves t q =
          (Inr (values_n (nodes t ! q) ! (length (values_n (nodes t ! q)) div 2)), t1) \<and>
      b t1 = b t \<and> root t1 = root t \<and> length (nodes t1) = length (nodes t) + 1 \<and>
      (\<forall>i < length (nodes t). i \<noteq> q \<longrightarrow> content (nodes t1 ! i) = content (nodes t ! i)) \<and>
      (\<forall>i < length (nodes t). i \<noteq> q \<longrightarrow> parent (nodes t1 ! i) =
          (if i \<in> set (drop k (ptrs (nodes t ! q)))
           then Some (length (nodes t)) else parent (nodes t ! i))) \<and>
      parent (nodes t1 ! q) = parent (nodes t ! q) \<and>
      content (nodes t1 ! q) =
        (take (length (values_n (nodes t ! q)) div 2) (values_n (nodes t ! q)),
         take k (ptrs (nodes t ! q)), False) \<and>
      parent (nodes t1 ! length (nodes t)) = parent (nodes t ! q) \<and>
      content (nodes t1 ! length (nodes t)) =
        (drop (length (values_n (nodes t ! q)) div 2 + 1) (values_n (nodes t ! q)),
         drop k (ptrs (nodes t ! q)), False)"
proof -
  let ?ns = "nodes t"
  let ?nd = "?ns ! q"
  let ?vs = "values_n ?nd"
  let ?ps = "ptrs ?nd"
  let ?mid = "length ?vs div 2"
  let ?rp = "drop k ?ps"
  let ?right = "Node (b t) (drop (?mid + 1) ?vs) ?rp None None (parent ?nd) (is_leaf ?nd)"
  let ?upd = "?ns[q := ?nd\<lparr>right_sibling := None\<rparr>]"
  have rpv: "\<forall>p \<in> set ?rp. p < length ?upd" and rpq: "q \<notin> set ?rp"
    using valid by (auto dest: in_set_dropD)
  from reparent_nth[OF rpv, of "length ?ns"] obtain ns1 where
    r: "reparent (length ?ns) ?rp ?upd = (Inr (), ns1)" and l: "length ns1 = length ?ns"
    and nth: "\<forall>i < length ?upd. ns1 ! i =
        (if i \<in> set ?rp then (?upd ! i)\<lparr>parent := Some (length ?ns)\<rparr> else ?upd ! i)" by auto
  from nth id rpq have cur: "ns1 ! q = ?nd\<lparr>right_sibling := None\<rparr>" by simp
  let ?left = "?nd\<lparr>right_sibling := None, values_n := take ?mid ?vs, ptrs := take k ?ps\<rparr>"
  define t1 where "t1 = t\<lparr>nodes := ns1[q := ?left] @ [?right]\<rparr>"
  have sh: "split_halves t q = (Inr (?vs ! ?mid), t1)"
  proof (cases "b t mod 2 = 1")
    case True
    with k have "k = length ?ps div 2" by simp
    with True id internal ne r cur show ?thesis
      by (simp add: split_halves_def Let_def t1_def del: reparent.simps)
  next
    case False
    with k have "k = length ?ps div 2 + 1" by simp
    with False id internal ne r cur show ?thesis
      by (simp add: split_halves_def Let_def t1_def del: reparent.simps)
  qed
  have nq: "nodes t1 ! q = ?left" using id l by (simp add: t1_def nth_append)
  have nn: "nodes t1 ! length ?ns = ?right" using l by (simp add: t1_def nth_append)
  have others: "\<And>i. i < length ?ns \<Longrightarrow> i \<noteq> q \<Longrightarrow>
      nodes t1 ! i = (if i \<in> set ?rp then (?ns ! i)\<lparr>parent := Some (length ?ns)\<rparr> else ?ns ! i)"
    using nth l by (simp add: t1_def nth_append)
  have 1: "b t1 = b t" "root t1 = root t" by (simp_all add: t1_def)
  have 2: "length (nodes t1) = length ?ns + 1" using l by (simp add: t1_def)
  have 3: "\<forall>i < length ?ns. i \<noteq> q \<longrightarrow> content (nodes t1 ! i) = content (?ns ! i)"
    using others by (simp add: content_def)
  have 4: "\<forall>i < length ?ns. i \<noteq> q \<longrightarrow> parent (nodes t1 ! i) =
          (if i \<in> set ?rp then Some (length ?ns) else parent (?ns ! i))"
    using others by simp
  have 5: "parent (nodes t1 ! q) = parent ?nd" by (simp add: nq)
  have 6: "content (nodes t1 ! q) = (take ?mid ?vs, take k ?ps, False)"
    using internal by (simp add: nq content_def)
  have 7: "parent (nodes t1 ! length ?ns) = parent ?nd" unfolding nn Node_def by simp
  have 8: "content (nodes t1 ! length ?ns) = (drop (?mid + 1) ?vs, ?rp, False)"
    using internal unfolding nn Node_def content_def by simp
  from sh 1 2 3 4 5 6 7 8 show ?thesis by blast
qed


lemma content_eq_iff:
  "content a = content c \<longleftrightarrow> values_n a = values_n c \<and> ptrs a = ptrs c \<and> is_leaf a = is_leaf c"
  "content a = (vs, ps, l) \<longleftrightarrow> values_n a = vs \<and> ptrs a = ps \<and> is_leaf a = l"
  by (auto simp: content_def)

lemma node_insert_keeps:
  "parent (node_insert nd v c None) = parent nd"
  "is_leaf (node_insert nd v c None) = is_leaf nd"
  by (simp_all add: node_insert_def split: option.split)

lemma set_list_insert: "set (list_insert i x xs) = insert x (set xs)"
proof -
  have "set (take i xs) \<union> set (drop i xs) = set xs"
    by (metis append_take_drop_id set_append)
  then show ?thesis by (auto simp: list_insert_def)
qed

lemma node_insert_ptrs_set: "set (ptrs (node_insert nd v c None)) = insert c (set (ptrs nd))"
  by (simp add: node_insert_def set_list_insert split: option.split)

lemma node_insert_content_cong:
  "content nd = content nd' \<Longrightarrow>
   content (node_insert nd v c None) = content (node_insert nd' v c None)"
  by (simp add: content_def node_insert_def split: option.split)

lemma ranked_links_halves:
  assumes rl: "ranked_links h H t"
    and id: "q < length (nodes t)"
    and internal: "\<not> is_leaf (nodes t ! q)"
    and len: "length (nodes t1) = length (nodes t) + 1"
    and oc: "\<forall>i < length (nodes t). i \<noteq> q \<longrightarrow> content (nodes t1 ! i) = content (nodes t ! i)"
    and op: "\<forall>i < length (nodes t). i \<noteq> q \<longrightarrow> parent (nodes t1 ! i) =
          (if i \<in> set (drop k (ptrs (nodes t ! q)))
           then Some (length (nodes t)) else parent (nodes t ! i))"
    and pq: "parent (nodes t1 ! q) = parent (nodes t ! q)"
    and cq: "content (nodes t1 ! q) = (vl, take k (ptrs (nodes t ! q)), False)"
    and pn: "parent (nodes t1 ! length (nodes t)) = parent (nodes t ! q)"
    and cn: "content (nodes t1 ! length (nodes t)) = (vr, drop k (ptrs (nodes t ! q)), False)"
  shows "ranked_links (h(length (nodes t) := h q)) H t1"
proof (rule ranked_linksI)
  let ?n = "length (nodes t)"
  let ?h = "h(?n := h q)"
  have leaf_same: "\<And>i. i < ?n \<Longrightarrow> is_leaf (nodes t1 ! i) = is_leaf (nodes t ! i)"
  proof -
    fix i assume "i < ?n"
    then show "is_leaf (nodes t1 ! i) = is_leaf (nodes t ! i)"
      using oc cq internal by (cases "i = q") (simp_all add: content_eq_iff)
  qed
  have kids: "\<And>c. c \<in> set (ptrs (nodes t ! q)) \<Longrightarrow> c < ?n \<and> h c < h q"
    using ranked_linksD(3)[OF rl id internal] by blast
  have up: "\<And>p. parent (nodes t ! q) = Some p \<Longrightarrow>
      p < ?n \<and> \<not> is_leaf (nodes t ! p) \<and> h q < h p"
    using ranked_linksD(2)[OF rl id] by blast
  {
    fix x assume x: "x < length (nodes t1)"
    show "?h x \<le> H"
      using x len ranked_linksD(1)[OF rl] id by (cases "x = ?n") simp_all
  }
  {
    fix x p assume x: "x < length (nodes t1)" and par: "parent (nodes t1 ! x) = Some p"
    show "p < length (nodes t1) \<and> \<not> is_leaf (nodes t1 ! p) \<and> ?h x < ?h p"
    proof (cases "x = ?n \<or> x = q")
      case True
      then have "parent (nodes t ! q) = Some p" using par pq pn by auto
      from up[OF this] have p: "p < ?n" "\<not> is_leaf (nodes t ! p)" "h q < h p" by simp_all
      with True leaf_same[of p] len id show ?thesis by auto
    next
      case False
      with x len have xn: "x < ?n" "x \<noteq> q" by simp_all
      show ?thesis
      proof (cases "x \<in> set (drop k (ptrs (nodes t ! q)))")
        case True
        with op xn par have pe: "p = ?n" by simp
        from True have "x \<in> set (ptrs (nodes t ! q))" by (rule in_set_dropD)
        from kids[OF this] have "h x < h q" by simp
        with pe xn len cn show ?thesis by (simp add: content_eq_iff)
      next
        case False
        with op xn par have "parent (nodes t ! x) = Some p" by simp
        from ranked_linksD(2)[OF rl xn(1) this]
        have p: "p < ?n" "\<not> is_leaf (nodes t ! p)" "h x < h p" by simp_all
        with leaf_same[of p] len xn show ?thesis by simp
      qed
    qed
  }
  {
    fix x c assume x: "x < length (nodes t1)" and il: "\<not> is_leaf (nodes t1 ! x)"
      and c: "c \<in> set (ptrs (nodes t1 ! x))"
    show "c < length (nodes t1) \<and> ?h c < ?h x"
    proof (cases "x = ?n \<or> x = q")
      case True
      then have "c \<in> set (ptrs (nodes t ! q))"
        using c cq cn by (auto simp: content_eq_iff dest: in_set_dropD in_set_takeD)
      from kids[OF this] have "c < ?n" "h c < h q" by simp_all
      with True len show ?thesis by auto
    next
      case False
      with x len have xn: "x < ?n" "x \<noteq> q" by simp_all
      with oc have same: "ptrs (nodes t1 ! x) = ptrs (nodes t ! x)"
        "is_leaf (nodes t1 ! x) = is_leaf (nodes t ! x)" by (simp_all add: content_eq_iff)
      from ranked_linksD(3)[OF rl xn(1)] il c same have "c < ?n" "h c < h x" by simp_all
      with xn len show ?thesis by simp
    qed
  }
qed

lemma ranked_links_insert:
  assumes rl: "ranked_links h H t"
    and p: "p < length (nodes t)"
    and c: "c < length (nodes t)" "h c < h p"
  shows "ranked_links h H (t\<lparr>nodes := (nodes t)[p := node_insert (nodes t ! p) v c None]\<rparr>)"
proof (rule ranked_linksI)
  let ?t = "t\<lparr>nodes := (nodes t)[p := node_insert (nodes t ! p) v c None]\<rparr>"
  have par: "\<And>i. i < length (nodes t) \<Longrightarrow> parent (nodes ?t ! i) = parent (nodes t ! i)"
    and lf: "\<And>i. i < length (nodes t) \<Longrightarrow> is_leaf (nodes ?t ! i) = is_leaf (nodes t ! i)"
    using p by (simp_all add: nth_list_update node_insert_keeps)
  {
    fix x assume "x < length (nodes ?t)"
    then show "h x \<le> H" using ranked_linksD(1)[OF rl] by simp
  }
  {
    fix x q assume x: "x < length (nodes ?t)" and "parent (nodes ?t ! x) = Some q"
    then have "parent (nodes t ! x) = Some q" using par by simp
    from ranked_linksD(2)[OF rl _ this] x
    have "q < length (nodes t)" "\<not> is_leaf (nodes t ! q)" "h x < h q" by simp_all
    then show "q < length (nodes ?t) \<and> \<not> is_leaf (nodes ?t ! q) \<and> h x < h q"
      using lf by simp
  }
  {
    fix x d assume x: "x < length (nodes ?t)" and il: "\<not> is_leaf (nodes ?t ! x)"
      and d: "d \<in> set (ptrs (nodes ?t ! x))"
    from x have xl: "x < length (nodes t)" by simp
    from il lf[OF xl] have il': "\<not> is_leaf (nodes t ! x)" by simp
    show "d < length (nodes ?t) \<and> h d < h x"
    proof (cases "x = p \<and> d = c")
      case True
      with c show ?thesis by simp
    next
      case False
      with d xl have "d \<in> set (ptrs (nodes t ! x))"
        by (cases "x = p") (auto simp: nth_list_update node_insert_ptrs_set)
      from ranked_linksD(3)[OF rl xl il' this] show ?thesis by simp
    qed
  }
qed


lemma content_parent_update: "content (nd\<lparr>parent := x\<rparr>) = content nd"
  by (simp add: content_def)

lemma btree_split_internal:
  "ranked_links h H t \<Longrightarrow> q < length (nodes t) \<Longrightarrow> \<not> is_leaf (nodes t ! q) \<Longrightarrow>
   length (values_n (nodes t ! q)) = b t \<Longrightarrow> 2 \<le> b t \<Longrightarrow> H - h q < fuel \<Longrightarrow>
   \<exists>t'. btree_split fuel t q = Some (Inr (), t') \<and> b t' = b t \<and>
     length (nodes t) < length (nodes t') \<and>
     (\<forall>i < length (nodes t). h i < h q \<longrightarrow> content (nodes t' ! i) = content (nodes t ! i)) \<and>
     content (nodes t' ! q) =
       (take (b t div 2) (values_n (nodes t ! q)),
        take (ptr_cut (b t) (length (ptrs (nodes t ! q)))) (ptrs (nodes t ! q)), False) \<and>
     content (nodes t' ! length (nodes t)) =
       (drop (b t div 2 + 1) (values_n (nodes t ! q)),
        drop (ptr_cut (b t) (length (ptrs (nodes t ! q)))) (ptrs (nodes t ! q)), False) \<and>
     (case parent (nodes t ! q) of
        None \<Rightarrow>
          root t' = Some (length (nodes t) + 1) \<and>
          content (nodes t' ! (length (nodes t) + 1)) =
            ([values_n (nodes t ! q) ! (b t div 2)], [q, length (nodes t)], False)
      | Some p \<Rightarrow>
          if length (values_n (node_insert (nodes t ! p) (values_n (nodes t ! q) ! (b t div 2))
                                 (length (nodes t)) None)) = b t
          then values_n (nodes t' ! p) =
                 take (b t div 2)
                   (values_n (node_insert (nodes t ! p) (values_n (nodes t ! q) ! (b t div 2))
                                 (length (nodes t)) None))
          else content (nodes t' ! p) =
                 content (node_insert (nodes t ! p) (values_n (nodes t ! q) ! (b t div 2))
                                 (length (nodes t)) None))"
proof (induction fuel arbitrary: t h q)
  case 0
  then show ?case by simp
next
  case (Suc f)
  note rl = Suc.prems(1) and id = Suc.prems(2) and internal = Suc.prems(3)
    and keys = Suc.prems(4) and b2 = Suc.prems(5) and fuel = Suc.prems(6)
  let ?n = "length (nodes t)"
  let ?vs = "values_n (nodes t ! q)"
  let ?ps = "ptrs (nodes t ! q)"
  let ?mid = "b t div 2"
  let ?npv = "?vs ! ?mid"
  define k where "k = ptr_cut (b t) (length ?ps)"
  have kids: "\<And>c. c \<in> set ?ps \<Longrightarrow> c < ?n \<and> h c < h q"
    using ranked_linksD(3)[OF rl id internal] by blast
  then have valid: "\<forall>c \<in> set ?ps. c < ?n \<and> c \<noteq> q" by auto
  have ne: "?vs \<noteq> []" using keys b2 by auto
  have kdef: "k = (if b t mod 2 = 1 then length ?ps div 2 else length ?ps div 2 + 1)"
    by (simp add: k_def ptr_cut_def)
  from split_halves_internal[OF id internal ne valid kdef] keys
  obtain t1 where sh: "split_halves t q = (Inr ?npv, t1)"
    and b1: "b t1 = b t" and len1: "length (nodes t1) = ?n + 1"
    and oc: "\<forall>i < ?n. i \<noteq> q \<longrightarrow> content (nodes t1 ! i) = content (nodes t ! i)"
    and op: "\<forall>i < ?n. i \<noteq> q \<longrightarrow> parent (nodes t1 ! i) =
          (if i \<in> set (drop k ?ps) then Some ?n else parent (nodes t ! i))"
    and pq: "parent (nodes t1 ! q) = parent (nodes t ! q)"
    and cq: "content (nodes t1 ! q) = (take ?mid ?vs, take k ?ps, False)"
    and pn: "parent (nodes t1 ! ?n) = parent (nodes t ! q)"
    and cn: "content (nodes t1 ! ?n) = (drop (?mid + 1) ?vs, drop k ?ps, False)"
    by auto
  define h' where "h' = h(?n := h q)"
  have rl1: "ranked_links h' H t1"
    unfolding h'_def by (rule ranked_links_halves[OF rl id internal len1 oc op pq cq pn cn])
  have hq: "h' q = h q" "h' ?n = h q" using id by (simp_all add: h'_def)
  have hold: "\<And>i. i < ?n \<Longrightarrow> h' i = h i" by (simp add: h'_def)
  have frame1: "\<And>i. i < ?n \<Longrightarrow> h i < h q \<Longrightarrow> content (nodes t1 ! i) = content (nodes t ! i)"
    using oc by auto
  show ?case
  proof (cases "parent (nodes t ! q)")
    case None
    let ?ns = "nodes t1"
    let ?par = "Node (b t1) [?npv] [q, ?n] None None None False"
    let ?a = "?ns @ [?par]"
    let ?c = "?a[q := (?a ! q)\<lparr>parent := Some (Suc ?n)\<rparr>]"
    let ?d = "?c[?n := (?c ! ?n)\<lparr>parent := Some (Suc ?n)\<rparr>]"
    define T where "T = t1\<lparr>nodes := ?d, root := Some (Suc ?n)\<rparr>"
    have run: "btree_split (Suc f) t q = Some (Inr (), T)"
      using sh pq None len1 by (simp add: Let_def T_def)
    have lenT: "length (nodes T) = ?n + 2" using len1 by (simp add: T_def)
    have old: "\<And>i. i < ?n + 1 \<Longrightarrow> content (nodes T ! i) = content (nodes t1 ! i)"
      using len1 by (simp add: T_def nth_list_update nth_append content_parent_update)
    have new: "content (nodes T ! (?n + 1)) = ([?npv], [q, ?n], False)"
      using len1 id by (simp add: T_def nth_list_update nth_append Node_def content_def)
    have "b T = b t" using b1 by (simp add: T_def)
    moreover have "?n < length (nodes T)" using lenT by simp
    moreover have "\<forall>i < ?n. h i < h q \<longrightarrow> content (nodes T ! i) = content (nodes t ! i)"
      using old frame1 by simp
    moreover have "content (nodes T ! q) = (take ?mid ?vs, take k ?ps, False)"
      using old[of q] id cq by simp
    moreover have "content (nodes T ! ?n) = (drop (?mid + 1) ?vs, drop k ?ps, False)"
      using old[of ?n] cn by simp
    moreover have "root T = Some (?n + 1)" by (simp add: T_def)
    ultimately show ?thesis using run new None unfolding k_def by simp
  next
    case (Some p)
    from ranked_linksD(2)[OF rl id Some]
    have p: "p < ?n" "\<not> is_leaf (nodes t ! p)" "h q < h p" by simp_all
    then have pneq: "p \<noteq> q" by auto
    have hp: "h p \<le> H" using ranked_linksD(1)[OF rl p(1)] .
    let ?ns = "nodes t1"
    let ?ins1 = "node_insert (?ns ! p) ?npv ?n None"
    let ?ins = "node_insert (nodes t ! p) ?npv ?n None"
    define t2 where "t2 = t1\<lparr>nodes := ?ns[p := ?ins1]\<rparr>"
    have cp: "content (?ns ! p) = content (nodes t ! p)" using oc p(1) pneq by simp
    have cins: "content ?ins1 = content ?ins" by (rule node_insert_content_cong[OF cp])
    have rl2: "ranked_links h' H t2"
      unfolding t2_def
      by (rule ranked_links_insert[OF rl1]) (use p len1 hq hold in simp_all)
    have len2: "length (nodes t2) = ?n + 1" using len1 by (simp add: t2_def)
    have b2': "b t2 = b t" using b1 by (simp add: t2_def)
    have n2p: "nodes t2 ! p = ?ins1" using p(1) len1 by (simp add: t2_def)
    have n2o: "\<And>i. i < ?n + 1 \<Longrightarrow> i \<noteq> p \<Longrightarrow> nodes t2 ! i = ?ns ! i"
      by (simp add: t2_def)
    have step: "btree_split (Suc f) t q =
        (if length (values_n ?ins1) = b t then btree_split f t2 p else Some (Inr (), t2))"
      using sh pq Some len1 p(1) b1 by (simp add: Let_def t2_def)
    have vins: "values_n ?ins1 = values_n ?ins" using cins by (simp add: content_eq_iff)
    show ?thesis
    proof (cases "length (values_n ?ins) = b t")
      case False
      have run: "btree_split (Suc f) t q = Some (Inr (), t2)"
        using step False vins by simp
      have "?n < length (nodes t2)" using len2 by simp
      moreover have "\<forall>i < ?n. h i < h q \<longrightarrow> content (nodes t2 ! i) = content (nodes t ! i)"
      proof (intro allI impI)
        fix i assume i: "i < ?n" "h i < h q"
        with p have "i \<noteq> p" by auto
        with i n2o[of i] frame1[of i] show "content (nodes t2 ! i) = content (nodes t ! i)" by simp
      qed
      moreover have "content (nodes t2 ! q) = (take ?mid ?vs, take k ?ps, False)"
        using n2o[of q] id pneq cq by simp
      moreover have "content (nodes t2 ! ?n) = (drop (?mid + 1) ?vs, drop k ?ps, False)"
        using n2o[of ?n] p(1) cn by simp
      moreover have "content (nodes t2 ! p) = content ?ins" using n2p cins by simp
      ultimately show ?thesis using run b2' Some False unfolding k_def by simp
    next
      case True
      have run: "btree_split (Suc f) t q = btree_split f t2 p" using step True vins by simp
      have i1: "p < length (nodes t2)" using p(1) len2 by simp
      have i2: "\<not> is_leaf (nodes t2 ! p)"
        using n2p p(2) cp by (simp add: node_insert_keeps content_eq_iff)
      have i3: "length (values_n (nodes t2 ! p)) = b t2" using n2p vins True b2' by simp
      have i4: "2 \<le> b t2" using b2 b2' by simp
      have i5: "H - h' p < f" using fuel p hp hold[OF p(1)] by simp
      from Suc.IH[OF rl2 i1 i2 i3 i4 i5] obtain t' where
        r: "btree_split f t2 p = Some (Inr (), t')" and rb: "b t' = b t2"
        and rlen: "length (nodes t2) < length (nodes t')"
        and rframe: "\<forall>i < length (nodes t2). h' i < h' p \<longrightarrow>
              content (nodes t' ! i) = content (nodes t2 ! i)"
        and rp: "content (nodes t' ! p) =
           (take (b t2 div 2) (values_n (nodes t2 ! p)),
            take (ptr_cut (b t2) (length (ptrs (nodes t2 ! p)))) (ptrs (nodes t2 ! p)), False)"
        by blast
      have fr: "\<And>i. i < ?n + 1 \<Longrightarrow> h' i < h p \<Longrightarrow> content (nodes t' ! i) = content (nodes t2 ! i)"
        using rframe len2 hold[OF p(1)] by simp
      have "?n < length (nodes t')" using rlen len2 by simp
      moreover have "\<forall>i < ?n. h i < h q \<longrightarrow> content (nodes t' ! i) = content (nodes t ! i)"
      proof (intro allI impI)
        fix i assume i: "i < ?n" "h i < h q"
        with p have ip: "i \<noteq> p" by auto
        from i p hold[OF i(1)] have "h' i < h p" by simp
        with fr[of i] i have "content (nodes t' ! i) = content (nodes t2 ! i)" by simp
        with i ip n2o[of i] frame1[of i] show "content (nodes t' ! i) = content (nodes t ! i)" by simp
      qed
      moreover have "content (nodes t' ! q) = (take ?mid ?vs, take k ?ps, False)"
        using fr[of q] id hq p(3) n2o[of q] pneq cq by simp
      moreover have "content (nodes t' ! ?n) = (drop (?mid + 1) ?vs, drop k ?ps, False)"
        using fr[of ?n] hq p n2o[of ?n] cn by simp
      moreover have "values_n (nodes t' ! p) = take ?mid (values_n ?ins)"
        using rp n2p vins b2' by (simp add: content_eq_iff)
      ultimately show ?thesis using run r rb b2' Some True unfolding k_def by simp
    qed
  qed
qed

text \<open>
  Every tree built by insert calls has consistent links: the first leaf has them, a
  \<^verbatim>\<open>Node.insert\<close> into a leaf keeps them, and so does every step of \<^verbatim>\<open>split\<close>, where the
  new right node takes the rank of the node it was cut from and a new root a rank above
  all others.
\<close>

lemma search_loop_result:
  "idx < length ns \<Longrightarrow> search_loop fuel ns v idx ops = Some (Inr (i, n)) \<Longrightarrow>
   i < length ns \<and> is_leaf (ns ! i)"
proof (induction fuel arbitrary: idx ops)
  case 0
  then show ?case by (simp split: if_splits)
next
  case (Suc fuel)
  show ?case
  proof (cases "is_leaf (ns ! idx)")
    case True
    with Suc.prems show ?thesis by simp
  next
    case False
    with Suc.prems(2) obtain idx' ops1 where
      "node_find (ns ! idx) v = Inr (Some (idx', ops1))" "idx' < length ns"
      "search_loop fuel ns v idx' (ops + ops1) = Some (Inr (i, n))"
      by (auto split: sum.splits option.splits if_splits)
    with Suc.IH show ?thesis by blast
  qed
qed

lemma btree_search_result:
  "btree_search fuel t v = Some (Inr (i, n), t1) \<Longrightarrow> i < length (nodes t) \<and> is_leaf (nodes t ! i)"
  by (auto simp: btree_search_def split: option.splits if_splits dest: search_loop_result)

lemma ranked_links_leaf_update:
  assumes rl: "ranked_links h H t" and i: "i < length (nodes t)" and leaf: "is_leaf (nodes t ! i)"
  shows "ranked_links h H (t\<lparr>nodes := (nodes t)[i := node_insert (nodes t ! i) v p None]\<rparr>)"
proof (rule ranked_linksI)
  let ?t = "t\<lparr>nodes := (nodes t)[i := node_insert (nodes t ! i) v p None]\<rparr>"
  have par: "\<And>x. x < length (nodes t) \<Longrightarrow> parent (nodes ?t ! x) = parent (nodes t ! x)"
    and lf: "\<And>x. x < length (nodes t) \<Longrightarrow> is_leaf (nodes ?t ! x) = is_leaf (nodes t ! x)"
    using i by (simp_all add: nth_list_update node_insert_keeps)
  {
    fix x assume "x < length (nodes ?t)"
    then show "h x \<le> H" using ranked_linksD(1)[OF rl] by simp
  }
  {
    fix x q assume x: "x < length (nodes ?t)" and "parent (nodes ?t ! x) = Some q"
    then have "parent (nodes t ! x) = Some q" using par by simp
    from ranked_linksD(2)[OF rl _ this] x
    have "q < length (nodes t)" "\<not> is_leaf (nodes t ! q)" "h x < h q" by simp_all
    then show "q < length (nodes ?t) \<and> \<not> is_leaf (nodes ?t ! q) \<and> h x < h q"
      using lf by simp
  }
  {
    fix x d assume x: "x < length (nodes ?t)" and il: "\<not> is_leaf (nodes ?t ! x)"
      and d: "d \<in> set (ptrs (nodes ?t ! x))"
    from x have xl: "x < length (nodes t)" by simp
    from il lf[OF xl] have il': "\<not> is_leaf (nodes t ! x)" by simp
    with leaf have "x \<noteq> i" by auto
    with d have "d \<in> set (ptrs (nodes t ! x))" by simp
    from ranked_linksD(3)[OF rl xl il' this] show "d < length (nodes ?t) \<and> h d < h x" by simp
  }
qed

lemma nth_list_update_if: "i < length xs \<Longrightarrow> xs[j := y] ! i = (if i = j then y else xs ! i)"
  by (cases "i = j") simp_all

lemma split_halves_leaf:
  assumes id: "q < length (nodes t)" and leaf: "is_leaf (nodes t ! q)"
    and sh: "split_halves t q = (Inr npv, t1)"
  shows "b t1 = b t \<and> length (nodes t1) = length (nodes t) + 1 \<and>
     (\<forall>i < length (nodes t). i \<noteq> q \<longrightarrow>
        is_leaf (nodes t1 ! i) = is_leaf (nodes t ! i) \<and> ptrs (nodes t1 ! i) = ptrs (nodes t ! i)) \<and>
     (\<forall>i < length (nodes t). parent (nodes t1 ! i) = parent (nodes t ! i)) \<and>
     is_leaf (nodes t1 ! q) \<and> is_leaf (nodes t1 ! length (nodes t)) \<and>
     parent (nodes t1 ! length (nodes t)) = parent (nodes t ! q)"
proof -
  let ?ns = "nodes t"
  let ?nd = "?ns ! q"
  let ?n = "length ?ns"
  define ns1 where "ns1 = (case right_sibling ?nd of None \<Rightarrow> ?ns
      | Some rs \<Rightarrow> ?ns[rs := (?ns ! rs)\<lparr>left_sibling := Some ?n\<rparr>])"
  define ns2 where "ns2 = ns1[q := (ns1 ! q)\<lparr>right_sibling := Some ?n\<rparr>]"
  have l: "length ns2 = ?n" by (simp add: ns2_def ns1_def split: option.split)
  have same: "\<And>i. i < ?n \<Longrightarrow> is_leaf (ns2 ! i) = is_leaf (?ns ! i) \<and>
      ptrs (ns2 ! i) = ptrs (?ns ! i) \<and> values_n (ns2 ! i) = values_n (?ns ! i) \<and>
      parent (ns2 ! i) = parent (?ns ! i)"
    by (simp add: ns2_def ns1_def nth_list_update_if split: option.split)
  obtain left right where t1: "t1 = t\<lparr>nodes := ns2[q := left] @ [right]\<rparr>"
    and lf: "is_leaf left" "parent left = parent ?nd"
    and rt: "is_leaf right" "parent right = parent ?nd"
  proof (cases "right_sibling ?nd")
    case None
    with sh id leaf show ?thesis
      by (intro that[of "(ns2 ! q)\<lparr>values_n := take (length (values_n (ns2 ! q)) div 2) (values_n (ns2 ! q)),
               ptrs := (if b t mod 2 = 1 then take (length (ptrs (ns2 ! q)) div 2) (ptrs (ns2 ! q))
                        else take (length (ptrs (ns2 ! q)) div 2 + 1) (ptrs (ns2 ! q)))\<rparr>"
            "Node (b t) (drop (length (values_n ?nd) div 2) (values_n ?nd))
               (drop (length (ptrs ?nd) div 2) (ptrs ?nd)) (Some q) (right_sibling ?nd) (parent ?nd) (is_leaf ?nd)"])
         (auto simp: split_halves_def Let_def ns2_def ns1_def Node_def split: if_splits)
  next
    case (Some rs)
    with sh id leaf show ?thesis
      by (intro that[of "(ns2 ! q)\<lparr>values_n := take (length (values_n (ns2 ! q)) div 2) (values_n (ns2 ! q)),
               ptrs := (if b t mod 2 = 1 then take (length (ptrs (ns2 ! q)) div 2) (ptrs (ns2 ! q))
                        else take (length (ptrs (ns2 ! q)) div 2 + 1) (ptrs (ns2 ! q)))\<rparr>"
            "Node (b t) (drop (length (values_n ?nd) div 2) (values_n ?nd))
               (drop (length (ptrs ?nd) div 2) (ptrs ?nd)) (Some q) (right_sibling ?nd) (parent ?nd) (is_leaf ?nd)"])
         (auto simp: split_halves_def Let_def ns2_def ns1_def Node_def nth_list_update split: if_splits)
  qed
  show ?thesis
    using l same id lf rt by (simp add: t1 nth_append nth_list_update)
qed


lemma halves_ranked:
  assumes rl: "ranked_links h H t" and id: "q < length (nodes t)"
    and sh: "split_halves t q = (Inr npv, t1)"
  shows "ranked_links (h(length (nodes t) := h q)) H t1 \<and>
     length (nodes t1) = length (nodes t) + 1 \<and>
     parent (nodes t1 ! q) = parent (nodes t ! q) \<and> b t1 = b t"
proof (cases "is_leaf (nodes t ! q)")
  case True
  let ?n = "length (nodes t)"
  let ?h = "h(?n := h q)"
  from split_halves_leaf[OF id True sh] have
    b1: "b t1 = b t" and len: "length (nodes t1) = ?n + 1"
    and oth: "\<forall>i < ?n. i \<noteq> q \<longrightarrow>
        is_leaf (nodes t1 ! i) = is_leaf (nodes t ! i) \<and> ptrs (nodes t1 ! i) = ptrs (nodes t ! i)"
    and par: "\<forall>i < ?n. parent (nodes t1 ! i) = parent (nodes t ! i)"
    and lq: "is_leaf (nodes t1 ! q)" and ln: "is_leaf (nodes t1 ! ?n)"
    and pn: "parent (nodes t1 ! ?n) = parent (nodes t ! q)"
    by simp_all
  have leaf_same: "\<And>i. i < ?n \<Longrightarrow> is_leaf (nodes t1 ! i) = is_leaf (nodes t ! i)"
  proof -
    fix i assume "i < ?n"
    then show "is_leaf (nodes t1 ! i) = is_leaf (nodes t ! i)"
      using oth lq True by (cases "i = q") simp_all
  qed
  have "ranked_links ?h H t1"
  proof (rule ranked_linksI)
    {
      fix x assume x: "x < length (nodes t1)"
      show "?h x \<le> H"
        using x len ranked_linksD(1)[OF rl] id by (cases "x = ?n") simp_all
    }
    {
      fix x p assume x: "x < length (nodes t1)" and px: "parent (nodes t1 ! x) = Some p"
      define y where "y = (if x = ?n then q else x)"
      have y: "y < ?n" "parent (nodes t ! y) = Some p" "?h x = h y"
        using x len id px pn par by (auto simp: y_def)
      from ranked_linksD(2)[OF rl y(1) y(2)]
      have p: "p < ?n" "\<not> is_leaf (nodes t ! p)" "h y < h p" by simp_all
      with leaf_same[of p] len y(3)
      show "p < length (nodes t1) \<and> \<not> is_leaf (nodes t1 ! p) \<and> ?h x < ?h p" by simp
    }
    {
      fix x c assume x: "x < length (nodes t1)" and il: "\<not> is_leaf (nodes t1 ! x)"
        and c: "c \<in> set (ptrs (nodes t1 ! x))"
      from x il len ln lq have xn: "x < ?n" "x \<noteq> q" by (auto simp: less_Suc_eq)
      with oth il c have "\<not> is_leaf (nodes t ! x)" "c \<in> set (ptrs (nodes t ! x))" by simp_all
      from ranked_linksD(3)[OF rl xn(1) this] have "c < ?n" "h c < h x" by simp_all
      with xn len show "c < length (nodes t1) \<and> ?h c < ?h x" by simp
    }
  qed
  with len par id b1 show ?thesis by simp
next
  case False
  let ?n = "length (nodes t)"
  have kids: "\<And>c. c \<in> set (ptrs (nodes t ! q)) \<Longrightarrow> c < ?n \<and> h c < h q"
    using ranked_linksD(3)[OF rl id False] by blast
  then have valid: "\<forall>c \<in> set (ptrs (nodes t ! q)). c < ?n \<and> c \<noteq> q" by auto
  have ne: "values_n (nodes t ! q) \<noteq> []"
    using sh id by (auto simp: split_halves_def Let_def)
  define k where "k = (if b t mod 2 = 1 then length (ptrs (nodes t ! q)) div 2
                       else length (ptrs (nodes t ! q)) div 2 + 1)"
  from split_halves_internal[OF id False ne valid k_def] sh
  have b1: "b t1 = b t" and len1: "length (nodes t1) = ?n + 1"
    and oc: "\<forall>i < ?n. i \<noteq> q \<longrightarrow> content (nodes t1 ! i) = content (nodes t ! i)"
    and op: "\<forall>i < ?n. i \<noteq> q \<longrightarrow> parent (nodes t1 ! i) =
          (if i \<in> set (drop k (ptrs (nodes t ! q))) then Some ?n else parent (nodes t ! i))"
    and pq: "parent (nodes t1 ! q) = parent (nodes t ! q)"
    and cq: "content (nodes t1 ! q) =
        (take (length (values_n (nodes t ! q)) div 2) (values_n (nodes t ! q)),
         take k (ptrs (nodes t ! q)), False)"
    and pn: "parent (nodes t1 ! ?n) = parent (nodes t ! q)"
    and cn: "content (nodes t1 ! ?n) =
        (drop (length (values_n (nodes t ! q)) div 2 + 1) (values_n (nodes t ! q)),
         drop k (ptrs (nodes t ! q)), False)"
    by auto
  from ranked_links_halves[OF rl id False len1 oc op pq cq pn cn] len1 pq b1
  show ?thesis by simp
qed

lemma new_root_ranked:
  assumes rl: "ranked_links h H t" and len: "length (nodes t) = n + 1" and q: "q < n"
  shows "ranked_links (h(Suc n := Suc H)) (Suc H)
     (t\<lparr>nodes := ((nodes t @ [Node bf vs [q, n] None None None False])
                    [q := ((nodes t @ [Node bf vs [q, n] None None None False]) ! q)
                            \<lparr>parent := Some (Suc n)\<rparr>])
                    [n := (((nodes t @ [Node bf vs [q, n] None None None False])
                             [q := ((nodes t @ [Node bf vs [q, n] None None None False]) ! q)
                                     \<lparr>parent := Some (Suc n)\<rparr>]) ! n)\<lparr>parent := Some (Suc n)\<rparr>],
        root := Some (Suc n)\<rparr>)"
    (is "ranked_links ?h (Suc H) ?T")
proof (rule ranked_linksI)
  have lenT: "length (nodes ?T) = n + 2" using len by simp
  have top: "nodes ?T ! Suc n = Node bf vs [q, n] None None None False"
    using len q by (simp add: nth_append)
  have old: "\<And>x. x < n + 1 \<Longrightarrow> is_leaf (nodes ?T ! x) = is_leaf (nodes t ! x) \<and>
      ptrs (nodes ?T ! x) = ptrs (nodes t ! x) \<and>
      parent (nodes ?T ! x) = (if x = q \<or> x = n then Some (Suc n) else parent (nodes t ! x))"
    using len q by (simp add: nth_list_update_if nth_append)
  {
    fix x assume "x < length (nodes ?T)"
    with lenT have "x < n + 1 \<or> x = Suc n" by auto
    then show "?h x \<le> Suc H" using ranked_linksD(1)[OF rl, of x] len by auto
  }
  {
    fix x p assume x: "x < length (nodes ?T)" and px: "parent (nodes ?T ! x) = Some p"
    from x lenT px top have xn: "x < n + 1" by (cases "x = Suc n") (auto simp: Node_def)
    show "p < length (nodes ?T) \<and> \<not> is_leaf (nodes ?T ! p) \<and> ?h x < ?h p"
    proof (cases "x = q \<or> x = n")
      case True
      with old[OF xn] px have "p = Suc n" by simp
      with top lenT xn ranked_linksD(1)[OF rl, of x] len show ?thesis
        by (simp add: Node_def)
    next
      case False
      with old[OF xn] px have "parent (nodes t ! x) = Some p" by simp
      from ranked_linksD(2)[OF rl _ this] xn len
      have p: "p < n + 1" "\<not> is_leaf (nodes t ! p)" "h x < h p" by simp_all
      with old[OF p(1)] lenT xn show ?thesis by simp
    qed
  }
  {
    fix x c assume x: "x < length (nodes ?T)" and il: "\<not> is_leaf (nodes ?T ! x)"
      and c: "c \<in> set (ptrs (nodes ?T ! x))"
    show "c < length (nodes ?T) \<and> ?h c < ?h x"
    proof (cases "x = Suc n")
      case True
      with c top have "c = q \<or> c = n" by (simp add: Node_def)
      then have "c < n + 1" using q by auto
      with True lenT ranked_linksD(1)[OF rl, of c] len show ?thesis by simp
    next
      case False
      with x lenT have xn: "x < n + 1" by simp
      with old[OF xn] il c have "\<not> is_leaf (nodes t ! x)" "c \<in> set (ptrs (nodes t ! x))"
        by simp_all
      from ranked_linksD(3)[OF rl _ this] xn len have "c < n + 1" "h c < h x" by simp_all
      with xn lenT show ?thesis by simp
    qed
  }
qed

lemma btree_split_ranked:
  "ranked_links h H t \<Longrightarrow> q < length (nodes t) \<Longrightarrow>
   btree_split fuel t q = Some (Inr (), t') \<Longrightarrow> \<exists>h' H'. ranked_links h' H' t'"
proof (induction fuel arbitrary: t h q)
  case 0
  then show ?case by simp
next
  case (Suc f)
  note rl = Suc.prems(1) and id = Suc.prems(2) and run = Suc.prems(3)
  let ?n = "length (nodes t)"
  obtain r t1 where sh0: "split_halves t q = (r, t1)" by (cases "split_halves t q")
  with run obtain npv where r: "r = Inr npv" by (cases r) simp_all
  with sh0 have sh: "split_halves t q = (Inr npv, t1)" by simp
  define h1 where "h1 = h(?n := h q)"
  from halves_ranked[OF rl id sh] have rl1: "ranked_links h1 H t1"
    and len1: "length (nodes t1) = ?n + 1"
    and pq: "parent (nodes t1 ! q) = parent (nodes t ! q)" and b1: "b t1 = b t"
    by (simp_all add: h1_def)
  show ?case
  proof (cases "parent (nodes t ! q)")
    case None
    with run sh pq len1 have "t' = t1\<lparr>nodes :=
        ((nodes t1 @ [Node (b t1) [npv] [q, ?n] None None None False])
           [q := ((nodes t1 @ [Node (b t1) [npv] [q, ?n] None None None False]) ! q)
                   \<lparr>parent := Some (Suc ?n)\<rparr>])
           [?n := (((nodes t1 @ [Node (b t1) [npv] [q, ?n] None None None False])
                    [q := ((nodes t1 @ [Node (b t1) [npv] [q, ?n] None None None False]) ! q)
                            \<lparr>parent := Some (Suc ?n)\<rparr>]) ! ?n)\<lparr>parent := Some (Suc ?n)\<rparr>],
        root := Some (Suc ?n)\<rparr>"
      by (simp add: Let_def)
    with new_root_ranked[OF rl1 len1 id, of "b t1" "[npv]"] show ?thesis by blast
  next
    case (Some p)
    from ranked_linksD(2)[OF rl id Some] have p: "p < ?n" "h q < h p" by simp_all
    define t2 where "t2 = t1\<lparr>nodes := (nodes t1)[p := node_insert (nodes t1 ! p) npv ?n None]\<rparr>"
    have rl2: "ranked_links h1 H t2"
      unfolding t2_def
      by (rule ranked_links_insert[OF rl1]) (use p len1 id in \<open>simp_all add: h1_def\<close>)
    have "btree_split (Suc f) t q =
        (if length (values_n (nodes t2 ! p)) = b t2 then btree_split f t2 p else Some (Inr (), t2))"
      using sh pq Some len1 p(1) by (simp add: Let_def t2_def)
    with run have step: "Some (Inr (), t') =
        (if length (values_n (nodes t2 ! p)) = b t2 then btree_split f t2 p else Some (Inr (), t2))"
      by simp
    show ?thesis
    proof (cases "length (values_n (nodes t2 ! p)) = b t2")
      case True
      with step have "btree_split f t2 p = Some (Inr (), t')" by simp
      moreover have "p < length (nodes t2)" using p(1) len1 by (simp add: t2_def)
      ultimately show ?thesis using Suc.IH[OF rl2] by blast
    next
      case False
      with step have "t' = t2" by simp
      with rl2 show ?thesis by blast
    qed
  qed
qed

lemma btree_insert_ranked:
  assumes rl: "ranked_links h H t" and run: "btree_insert fuel t v p = Some (Inr (), t')"
  shows "\<exists>h' H'. ranked_links h' H' t'"
proof -
  define t0 where "t0 = (if root t = None
      then t\<lparr>nodes := nodes t @ [Node (b t) [] [] None None None True], root := Some 0\<rparr>
      else t)"
  have "\<exists>h0. ranked_links h0 H t0"
  proof (cases "root t = None")
    case True
    have "ranked_links (h(length (nodes t) := 0)) H t0"
    proof (rule ranked_linksI)
      let ?n = "length (nodes t)"
      have old: "\<And>x. x < ?n \<Longrightarrow> nodes t0 ! x = nodes t ! x"
        and new: "nodes t0 ! ?n = Node (b t) [] [] None None None True"
        and len: "length (nodes t0) = ?n + 1"
        using True by (simp_all add: t0_def nth_append)
      {
        fix x assume "x < length (nodes t0)"
        then show "(h(?n := 0)) x \<le> H"
          using len ranked_linksD(1)[OF rl, of x] by (cases "x = ?n") simp_all
      }
      {
        fix x q assume x: "x < length (nodes t0)" and px: "parent (nodes t0 ! x) = Some q"
        with len new have xn: "x < ?n" by (cases "x = ?n") (auto simp: Node_def)
        with px old have "parent (nodes t ! x) = Some q" by simp
        from ranked_linksD(2)[OF rl xn this] have "q < ?n" "\<not> is_leaf (nodes t ! q)" "h x < h q"
          by simp_all
        with old[of q] len xn
        show "q < length (nodes t0) \<and> \<not> is_leaf (nodes t0 ! q) \<and> (h(?n := 0)) x < (h(?n := 0)) q"
          by simp
      }
      {
        fix x c assume x: "x < length (nodes t0)" and il: "\<not> is_leaf (nodes t0 ! x)"
          and c: "c \<in> set (ptrs (nodes t0 ! x))"
        with len new have xn: "x < ?n" by (cases "x = ?n") (auto simp: Node_def)
        with il c old have "\<not> is_leaf (nodes t ! x)" "c \<in> set (ptrs (nodes t ! x))" by simp_all
        from ranked_linksD(3)[OF rl xn this] have "c < ?n" "h c < h x" by simp_all
        with xn len show "c < length (nodes t0) \<and> (h(?n := 0)) c < (h(?n := 0)) x" by simp
      }
    qed
    then show ?thesis by blast
  next
    case False
    with rl show ?thesis by (auto simp: t0_def)
  qed
  then obtain h0 where rl0: "ranked_links h0 H t0" by blast
  from run obtain index ops t1 where
    s: "btree_search fuel t0 v = Some (Inr (index, ops), t1)"
    by (auto simp: btree_insert_def Let_def t0_def split: option.splits sum.splits prod.splits)
  from btree_search_state[OF s] have t1: "t1 = t0" .
  from btree_search_result[OF s] have idx: "index < length (nodes t0)" "is_leaf (nodes t0 ! index)"
    by simp_all
  define t2 where "t2 = t0\<lparr>nodes := (nodes t0)[index := node_insert (nodes t0 ! index) v p None]\<rparr>"
  have rl2: "ranked_links h0 H t2"
    unfolding t2_def by (rule ranked_links_leaf_update[OF rl0 idx])
  have unfold: "btree_insert fuel t v p =
      (case btree_search fuel t0 v of
         None \<Rightarrow> None
       | Some (Inl e, t1) \<Rightarrow> Some (Inl e, t1)
       | Some (Inr (index, ops), t1) \<Rightarrow>
           let t2 = t1\<lparr>nodes := (nodes t1)[index := node_insert (nodes t1 ! index) v p None]\<rparr>
           in if length (values_n (nodes t2 ! index)) = b t2 then btree_split fuel t2 index
              else Some (Inr (), t2))"
    by (simp only: btree_insert_def t0_def Let_def)
  have "btree_insert fuel t v p =
      (if length (values_n (nodes t2 ! index)) = b t2 then btree_split fuel t2 index
       else Some (Inr (), t2))"
    unfolding unfold using s t1 by (simp add: Let_def t2_def)
  with run have step: "Some (Inr (), t') =
      (if length (values_n (nodes t2 ! index)) = b t2 then btree_split fuel t2 index
       else Some (Inr (), t2))"
    by simp
  show ?thesis
  proof (cases "length (values_n (nodes t2 ! index)) = b t2")
    case True
    with step have "btree_split fuel t2 index = Some (Inr (), t')" by simp
    moreover have "index < length (nodes t2)" using idx(1) by (simp add: t2_def)
    ultimately show ?thesis using btree_split_ranked[OF rl2] by blast
  next
    case False
    with step have "t' = t2" by simp
    with rl2 show ?thesis by blast
  qed
qed

lemma inserts_ranked:
  "ranked_links h H t \<Longrightarrow> inserts fuel t kps = Some (Inr (), t') \<Longrightarrow>
   \<exists>h' H'. ranked_links h' H' t'"
proof (induction kps arbitrary: t h H)
  case Nil
  then show ?case by auto
next
  case (Cons kp kps)
  obtain v p where kp: "kp = (v, p)" by (cases kp)
  with Cons.prems(2) obtain t1 where
    1: "btree_insert fuel t v p = Some (Inr (), t1)" and 2: "inserts fuel t1 kps = Some (Inr (), t')"
    by (auto split: option.splits sum.splits prod.splits)
  from btree_insert_ranked[OF Cons.prems(1) 1] obtain h1 H1 where "ranked_links h1 H1 t1" by blast
  from Cons.IH[OF this 2] show ?case .
qed

lemma inserts_ranked_links:
  "inserts fuel (Btree bf) kps = Some (Inr (), t') \<Longrightarrow> \<exists>h H. ranked_links h H t'"
proof -
  have "ranked_links (\<lambda>i. 0) 0 (Btree bf)" by (simp add: ranked_links_def Btree_def)
  then show "inserts fuel (Btree bf) kps = Some (Inr (), t') \<Longrightarrow> \<exists>h H. ranked_links h H t'"
    by (rule inserts_ranked)
qed

lemma delete_loop_no_match:
  "\<forall>j < length vs. vs ! j = v \<longrightarrow> n + j < length ps \<and> ps ! (n + j) \<noteq> ptr \<Longrightarrow>
   delete_loop v ptr (enumerate n vs) ps temp =
     (Inr (if v \<in> set vs then [''Value not in ptr'']
           else if temp then [] else [''Value not in Tree'']), ps)"
proof (induction vs arbitrary: n)
  case Nil
  then show ?case by simp
next
  case (Cons x xs)
  have tl: "\<forall>j < length xs. xs ! j = v \<longrightarrow> Suc n + j < length ps \<and> ps ! (Suc n + j) \<noteq> ptr"
  proof (intro allI impI)
    fix j assume "j < length xs" "xs ! j = v"
    with Cons.prems[rule_format, of "Suc j"]
    show "Suc n + j < length ps \<and> ps ! (Suc n + j) \<noteq> ptr" by simp
  qed
  show ?case
  proof (cases "x = v")
    case True
    with Cons.prems[rule_format, of 0] have "n < length ps" "ps ! n \<noteq> ptr" by simp_all
    with True show ?thesis by auto
  next
    case False
    with Cons.IH[OF tl] show ?thesis by simp
  qed
qed

lemma scan_leaf_matches:
  "n + length vs \<le> length ps \<Longrightarrow>
   scan_leaf cmp (enumerate n vs) ps acc =
     Inr (acc @ map snd (filter (\<lambda>(k, p). cmp k) (zip vs (drop n ps))))"
proof (induction vs arbitrary: n acc)
  case Nil
  then show ?case by simp
next
  case (Cons x xs)
  then have n: "n < length ps" and rest: "Suc n + length xs \<le> length ps" by simp_all
  from n have d: "drop n ps = ps ! n # drop (Suc n) ps" by (simp add: Cons_nth_drop_Suc)
  show ?case using Cons.IH[OF rest] n by (simp add: d)
qed

lemma walk_chain:
  "walk sibling fuel ns nd acc =
     (case sibling_chain sibling fuel ns nd of
        None \<Rightarrow> None
      | Some (Inl e) \<Rightarrow> Some (Inl e)
      | Some (Inr chain) \<Rightarrow> Some (Inr (acc @ concat (map ptrs chain))))"
proof (induction fuel arbitrary: nd acc)
  case 0
  then show ?case by (simp split: option.splits)
next
  case (Suc fuel)
  then show ?case by (simp split: option.splits sum.splits)
qed

lemma range_block_results:
  assumes "length (values_n nd) \<le> length (ptrs nd)"
    and "sibling_chain sibling fuel (nodes t) nd = Some (Inr chain)"
  shows "range_block cmp sibling fuel t nd ops =
     Some (Inr (leaf_matches cmp nd @ concat (map ptrs chain), ops + length (values_n nd)), t)"
  using assms scan_leaf_matches[of 0 "values_n nd" "ptrs nd" cmp "[]"]
  by (simp add: range_block_def walk_chain leaf_matches_def)

lemma find_results_scan:
  assumes "operator \<in> {''>'', ''>='', ''<'', ''<=''}"
    and "btree_search fuel t v = Some (Inr (idx, ops), t1)"
    and "length (values_n (nodes t ! idx)) \<le> length (ptrs (nodes t ! idx))"
    and "sibling_chain (walk_link operator) fuel (nodes t) (nodes t ! idx) = Some (Inr chain)"
  shows "find_results fuel t operator v =
     Some (leaf_matches (compare_with operator v) (nodes t ! idx) @ concat (map ptrs chain))"
proof -
  from assms(2) have t1: "t1 = t" by (rule btree_search_state)
  have rb: "\<And>cmp sibling. sibling = walk_link operator \<Longrightarrow>
     range_block cmp sibling fuel t (nodes t ! idx) ops =
       Some (Inr (leaf_matches cmp (nodes t ! idx) @ concat (map ptrs chain),
                  ops + length (values_n (nodes t ! idx))), t)"
    using range_block_results[OF assms(3)] assms(4) by simp
  have c: "compare_with ''>'' v = (\<lambda>k. k > v)" "compare_with ''>='' v = (\<lambda>k. k \<ge> v)"
    "compare_with ''<'' v = (\<lambda>k. k < v)" "compare_with ''<='' v = (\<lambda>k. k \<le> v)"
    by (auto simp: compare_with_def fun_eq_iff)
  from assms(1) consider "operator = ''>''" | "operator = ''>=''"
    | "operator = ''<''" | "operator = ''<=''"
    by auto
  then show ?thesis
  proof cases
    case 1
    then show ?thesis using assms(2) t1 rb[of right_sibling] c
      by (simp add: find_results_def btree_find_def Let_def walk_link_def)
  next
    case 2
    then show ?thesis using assms(2) t1 rb[of right_sibling] c
      by (simp add: find_results_def btree_find_def Let_def walk_link_def)
  next
    case 3
    then show ?thesis using assms(2) t1 rb[of left_sibling] c
      by (simp add: find_results_def btree_find_def Let_def walk_link_def)
  next
    case 4
    then show ?thesis using assms(2) t1 rb[of left_sibling] c
      by (simp add: find_results_def btree_find_def Let_def walk_link_def)
  qed
qed

lemma leaf_matches_all:
  assumes "length (values_n nd) = length (ptrs nd)" and "\<forall>k \<in> set (values_n nd). cmp k"
  shows "leaf_matches cmp nd = ptrs nd"
proof -
  have "filter (\<lambda>(k, p). cmp k) (zip (values_n nd) (ptrs nd)) = zip (values_n nd) (ptrs nd)"
    using assms(2) by (auto simp: filter_id_conv dest: set_zip_leftD)
  then show ?thesis using assms(1) by (simp add: leaf_matches_def)
qed

lemma matching_pairs_blocks:
  "map snd (matching_pairs cmp chain) = concat (map (leaf_matches cmp) chain)"
  by (simp add: matching_pairs_def chain_pairs_def leaf_matches_def[abs_def] filter_concat
        map_concat comp_def)

subsection \<open>C1: the leaf chain\<close>

text \<open>
  Claim C1: for every tree built from the empty tree by insert calls, walking
  \<^verbatim>\<open>rightSibling\<close> from the leftmost leaf yields every (key, pointer) pair stored in the
  tree, in non-decreasing key order, exactly once.

  The code at the insertions \<^verbatim>\<open>(5,0), (12,1), (7,2)\<close> with \<^verbatim>\<open>b = 3\<close>: all three calls
  return, and the walk yields the keys 5, 7, 12 paired with the pointers 0, 1, 2. The
  inserted pair \<^verbatim>\<open>(7,2)\<close> is not among them (nor is \<^verbatim>\<open>(12,1)\<close>): \<^verbatim>\<open>Node.insert\<close> put the
  key 7 at position 1 of the leaf and its pointer at position 2.
\<close>

theorem leaf_chain_loses_inserted_pair:
  "returned (inserts 5 (Btree 3) (take 3 scenario)) \<and>
   map_option chain_pairs (leaf_chain 5 tree3) = Some [(5, 0), (7, 1), (12, 2)] \<and>
   (7, 2) \<notin> set (chain_pairs (the (leaf_chain 5 tree3))) \<and>
   (12, 1) \<notin> set (chain_pairs (the (leaf_chain 5 tree3)))"
  by code_simp

subsection \<open>C2: key count and pointer count of a leaf\<close>

text \<open>
  Claim C2: for every branching factor \<^verbatim>\<open>b >= 2\<close>, even or odd, every leaf of a tree built
  by insert calls has as many keys as record pointers, and sorted keys; in particular
  both halves of a leaf split.

  The code at \<^verbatim>\<open>b = 4\<close> and the insertions \<^verbatim>\<open>(1,0), (2,1), (3,2), (4,3)\<close>: the fourth call
  splits the root leaf, and the left half keeps the keys 1, 2 with the three pointers
  0, 1, 2; pointer 2 is in both halves.
\<close>

theorem even_leaf_split_keeps_extra_pointer:
  "returned (inserts 5 (Btree 4) [(1, 0), (2, 1), (3, 2), (4, 3)]) \<and>
   is_leaf (nodes tree_even ! 0) \<and>
   values_n (nodes tree_even ! 0) = [1, 2] \<and>
   ptrs (nodes tree_even ! 0) = [0, 1, 2] \<and>
   is_leaf (nodes tree_even ! 1) \<and>
   values_n (nodes tree_even ! 1) = [3, 4] \<and>
   ptrs (nodes tree_even ! 1) = [2, 3] \<and>
   length (values_n (nodes tree_even ! 0)) \<noteq> length (ptrs (nodes tree_even ! 0))"
  by code_simp

subsection \<open>C3: the split of an internal node\<close>

text \<open>
  Claim C3: for every branching factor \<^verbatim>\<open>b >= 2\<close>, even or odd, when split is invoked on
  an internal node that holds \<^verbatim>\<open>b\<close> keys and \<^verbatim>\<open>b + 1\<close> children, in an arena with
  consistent parent and child links, the call returns, and each of the two resulting
  internal nodes has exactly one more child pointer than keys. The promoted key is
  \<^verbatim>\<open>keys[b div 2]\<close> of the node before the split and is kept in neither half: the left half
  has the \<^verbatim>\<open>b div 2\<close> keys before that position and the first \<^verbatim>\<open>b div 2 + 1\<close> children,
  the right half the keys after that position and the remaining children. The promoted key
  goes up: when the node had no parent, the new root holds just that key over the two
  halves; otherwise the key and the right half are inserted into the parent, which is
  split in turn when it thereby reaches \<^verbatim>\<open>b\<close> keys. This is what \<^verbatim>\<open>split\<close> leaves behind
  when it returns, whatever splits of ancestors it has made meanwhile.

  The links are consistent in the sense of \<^const>\<open>ranked_links\<close>, as they are in every tree
  built by insert calls (\<open>inserts_ranked_links\<close>) and in the arena of every recursive call of
  \<^verbatim>\<open>split\<close> on such a tree; the fuel is any number above the length of the chain of
  parents.
\<close>

theorem split_internal_children_keys:
  assumes b2: "2 \<le> b t"
    and id: "node_id < length (nodes t)"
    and internal: "\<not> is_leaf (nodes t ! node_id)"
    and keys: "length (values_n (nodes t ! node_id)) = b t"
    and children: "length (ptrs (nodes t ! node_id)) = b t + 1"
    and links: "ranked_links h H t"
    and fuel: "H - h node_id < fuel"
  shows "returned (btree_split fuel t node_id) \<and>
    (let t' = tree_after (btree_split fuel t node_id);
         left = nodes t' ! node_id;
         right = nodes t' ! length (nodes t);
         promoted = values_n (nodes t ! node_id) ! (b t div 2)
     in \<not> is_leaf left \<and> \<not> is_leaf right \<and>
        length (ptrs left) = length (values_n left) + 1 \<and>
        length (ptrs right) = length (values_n right) + 1 \<and>
        values_n left = take (b t div 2) (values_n (nodes t ! node_id)) \<and>
        values_n right = drop (b t div 2 + 1) (values_n (nodes t ! node_id)) \<and>
        ptrs left = take (b t div 2 + 1) (ptrs (nodes t ! node_id)) \<and>
        ptrs right = drop (b t div 2 + 1) (ptrs (nodes t ! node_id)) \<and>
        (case parent (nodes t ! node_id) of
           None \<Rightarrow>
             root t' = Some (length (nodes t) + 1) \<and>
             content (nodes t' ! (length (nodes t) + 1)) =
               ([promoted], [node_id, length (nodes t)], False)
         | Some p \<Rightarrow>
             if length (values_n (node_insert (nodes t ! p) promoted (length (nodes t)) None)) = b t
             then values_n (nodes t' ! p) =
                    take (b t div 2)
                      (values_n (node_insert (nodes t ! p) promoted (length (nodes t)) None))
             else content (nodes t' ! p) =
                    content (node_insert (nodes t ! p) promoted (length (nodes t)) None)))"
proof -
  let ?vs = "values_n (nodes t ! node_id)"
  let ?ps = "ptrs (nodes t ! node_id)"
  let ?mid = "b t div 2"
  have cut: "ptr_cut (b t) (length ?ps) = ?mid + 1"
    using children by (auto simp: ptr_cut_def mod_2_eq_odd elim: oddE)
  from btree_split_internal[OF links id internal keys b2 fuel] obtain t' where
    run: "btree_split fuel t node_id = Some (Inr (), t')"
    and cl: "content (nodes t' ! node_id) = (take ?mid ?vs, take (?mid + 1) ?ps, False)"
    and cr: "content (nodes t' ! length (nodes t)) =
               (drop (?mid + 1) ?vs, drop (?mid + 1) ?ps, False)"
    and up: "case parent (nodes t ! node_id) of
        None \<Rightarrow>
          root t' = Some (length (nodes t) + 1) \<and>
          content (nodes t' ! (length (nodes t) + 1)) =
            ([?vs ! ?mid], [node_id, length (nodes t)], False)
      | Some p \<Rightarrow>
          if length (values_n (node_insert (nodes t ! p) (?vs ! ?mid) (length (nodes t)) None)) = b t
          then values_n (nodes t' ! p) =
                 take ?mid (values_n (node_insert (nodes t ! p) (?vs ! ?mid) (length (nodes t)) None))
          else content (nodes t' ! p) =
                 content (node_insert (nodes t ! p) (?vs ! ?mid) (length (nodes t)) None)"
    unfolding cut by blast
  have ret: "returned (btree_split fuel t node_id)" by (simp add: run returned_def)
  have ta: "tree_after (btree_split fuel t node_id) = t'" by (simp add: run tree_after_def)
  have mid: "?mid < b t" using b2 by simp
  have l1: "length (take (?mid + 1) ?ps) = length (take ?mid ?vs) + 1"
    using keys children mid by simp
  have l2: "length (drop (?mid + 1) ?ps) = length (drop (?mid + 1) ?vs) + 1"
    using keys children mid by simp
  from cl have left: "values_n (nodes t' ! node_id) = take ?mid ?vs"
    "ptrs (nodes t' ! node_id) = take (?mid + 1) ?ps" "\<not> is_leaf (nodes t' ! node_id)"
    by (simp_all add: content_eq_iff)
  from cr have right: "values_n (nodes t' ! length (nodes t)) = drop (?mid + 1) ?vs"
    "ptrs (nodes t' ! length (nodes t)) = drop (?mid + 1) ?ps"
    "\<not> is_leaf (nodes t' ! length (nodes t))"
    by (simp_all add: content_eq_iff)
  show ?thesis
    unfolding Let_def ta left right
    using ret l1 l2 up left(3) right(3) by (intro conjI) simp_all
qed

theorem split_internal_children_keys_witness:
  "returned (btree_split 5 overfull_odd 2) \<and>
   content (nodes (tree_after (btree_split 5 overfull_odd 2)) ! 2) = ([3], [0, 3], False) \<and>
   content (nodes (tree_after (btree_split 5 overfull_odd 2)) ! 5) = ([9], [1, 4], False) \<and>
   root (tree_after (btree_split 5 overfull_odd 2)) = Some 6 \<and>
   content (nodes (tree_after (btree_split 5 overfull_odd 2)) ! 6) = ([7], [2, 5], False) \<and>
   returned (btree_split 5 overfull_even 5) \<and>
   content (nodes (tree_after (btree_split 5 overfull_even 5)) ! 5) = ([10, 20], [0, 1, 2], False) \<and>
   content (nodes (tree_after (btree_split 5 overfull_even 5)) ! 6) = ([40], [3, 4], False) \<and>
   root (tree_after (btree_split 5 overfull_even 5)) = Some 7 \<and>
   content (nodes (tree_after (btree_split 5 overfull_even 5)) ! 7) = ([30], [5, 6], False) \<and>
   returned (btree_split 5 overfull_inner 5) \<and>
   content (nodes (tree_after (btree_split 5 overfull_inner 5)) ! 5) = ([9], [1, 4], False) \<and>
   content (nodes (tree_after (btree_split 5 overfull_inner 5)) ! 9) = ([15], [7, 8], False) \<and>
   content (nodes (tree_after (btree_split 5 overfull_inner 5)) ! 6) = ([7, 12], [2, 5, 9], False)"
proof -
  have o1: "2 \<le> b overfull_odd" by code_simp
  have o2: "2 < length (nodes overfull_odd)" by code_simp
  have o3: "\<not> is_leaf (nodes overfull_odd ! 2)" by code_simp
  have o4: "length (values_n (nodes overfull_odd ! 2)) = b overfull_odd" by code_simp
  have o5: "length (ptrs (nodes overfull_odd ! 2)) = b overfull_odd + 1" by code_simp
  have o6: "ranked_links (\<lambda>i. if i = 2 then 1 else 0) 1 overfull_odd" by code_simp
  have o7: "1 - (if (2::nat) = 2 then 1 else 0) < (5::nat)" by simp
  have vo: "values_n (nodes overfull_odd ! 2) = [3, 7, 9]"
    "ptrs (nodes overfull_odd ! 2) = [0, 3, 1, 4]"
    "b overfull_odd = 3" "length (nodes overfull_odd) = 5"
    "parent (nodes overfull_odd ! 2) = None"
    by code_simp+
  have odd: "returned (btree_split 5 overfull_odd 2) \<and>
     content (nodes (tree_after (btree_split 5 overfull_odd 2)) ! 2) = ([3], [0, 3], False) \<and>
     content (nodes (tree_after (btree_split 5 overfull_odd 2)) ! 5) = ([9], [1, 4], False) \<and>
     root (tree_after (btree_split 5 overfull_odd 2)) = Some 6 \<and>
     content (nodes (tree_after (btree_split 5 overfull_odd 2)) ! 6) = ([7], [2, 5], False)"
    using split_internal_children_keys[OF o1 o2 o3 o4 o5 o6 o7]
    unfolding vo Let_def by (simp add: content_eq_iff)
  have e1: "2 \<le> b overfull_even" by code_simp
  have e2: "5 < length (nodes overfull_even)" by code_simp
  have e3: "\<not> is_leaf (nodes overfull_even ! 5)" by code_simp
  have e4: "length (values_n (nodes overfull_even ! 5)) = b overfull_even" by code_simp
  have e5: "length (ptrs (nodes overfull_even ! 5)) = b overfull_even + 1" by code_simp
  have e6: "ranked_links (\<lambda>i. if i = 5 then 1 else 0) 1 overfull_even" by code_simp
  have e7: "1 - (if (5::nat) = 5 then 1 else 0) < (5::nat)" by simp
  have ve: "values_n (nodes overfull_even ! 5) = [10, 20, 30, 40]"
    "ptrs (nodes overfull_even ! 5) = [0, 1, 2, 3, 4]"
    "b overfull_even = 4" "length (nodes overfull_even) = 6"
    "parent (nodes overfull_even ! 5) = None"
    by code_simp+
  have even: "returned (btree_split 5 overfull_even 5) \<and>
     content (nodes (tree_after (btree_split 5 overfull_even 5)) ! 5) = ([10, 20], [0, 1, 2], False) \<and>
     content (nodes (tree_after (btree_split 5 overfull_even 5)) ! 6) = ([40], [3, 4], False) \<and>
     root (tree_after (btree_split 5 overfull_even 5)) = Some 7 \<and>
     content (nodes (tree_after (btree_split 5 overfull_even 5)) ! 7) = ([30], [5, 6], False)"
    using split_internal_children_keys[OF e1 e2 e3 e4 e5 e6 e7]
    unfolding ve Let_def by (simp add: content_eq_iff)
  have i1: "2 \<le> b overfull_inner" by code_simp
  have i2: "5 < length (nodes overfull_inner)" by code_simp
  have i3: "\<not> is_leaf (nodes overfull_inner ! 5)" by code_simp
  have i4: "length (values_n (nodes overfull_inner ! 5)) = b overfull_inner" by code_simp
  have i5: "length (ptrs (nodes overfull_inner ! 5)) = b overfull_inner + 1" by code_simp
  have i6: "ranked_links (\<lambda>i. if i = 6 then 2 else if i = 2 \<or> i = 5 then 1 else 0) 2 overfull_inner"
    by code_simp
  have i7: "2 - (if (5::nat) = 6 then 2 else if (5::nat) = 2 \<or> (5::nat) = 5 then 1 else 0) < (5::nat)"
    by simp
  have vi: "values_n (nodes overfull_inner ! 5) = [9, 12, 15]"
    "ptrs (nodes overfull_inner ! 5) = [1, 4, 7, 8]"
    "b overfull_inner = 3" "length (nodes overfull_inner) = 9"
    "parent (nodes overfull_inner ! 5) = Some 6"
    by code_simp+
  have ins: "content (node_insert (nodes overfull_inner ! 6) 12 9 None) = ([7, 12], [2, 5, 9], False)"
    by code_simp
  have inner: "returned (btree_split 5 overfull_inner 5) \<and>
     content (nodes (tree_after (btree_split 5 overfull_inner 5)) ! 5) = ([9], [1, 4], False) \<and>
     content (nodes (tree_after (btree_split 5 overfull_inner 5)) ! 9) = ([15], [7, 8], False) \<and>
     content (nodes (tree_after (btree_split 5 overfull_inner 5)) ! 6) = ([7, 12], [2, 5, 9], False)"
    using split_internal_children_keys[OF i1 i2 i3 i4 i5 i6 i7] ins
    unfolding vi Let_def by (simp add: content_eq_iff)
  from odd even inner show ?thesis by simp
qed

subsection \<open>C4: insert, then find by equality\<close>

text \<open>
  Claim C4: for every tree and every key \<^verbatim>\<open>k\<close> not in the tree, after \<^verbatim>\<open>insert(k, p)\<close>
  the equality lookup of \<^verbatim>\<open>k\<close> returns the pointer \<^verbatim>\<open>p\<close>.

  The code at the tree holding \<^verbatim>\<open>(5,0), (12,1)\<close> with \<^verbatim>\<open>b = 3\<close>, and \<^verbatim>\<open>insert(7, 2)\<close>: the
  lookup \<^verbatim>\<open>find('==', 7)\<close> returns pointer 1, the one that was inserted with key 12, and
  \<^verbatim>\<open>find('==', 12)\<close> returns pointer 2. With the symbol \<^verbatim>\<open>'='\<close> of the specification the
  lookup returns the empty list.
\<close>

theorem find_after_insert_returns_other_pointer:
  "returned (btree_insert 5 tree2 7 2) \<and>
   tree_after (btree_insert 5 tree2 7 2) = tree3 \<and>
   find_results 5 tree2 ''=='' 7 = Some [] \<and>
   find_results 5 tree3 ''=='' 7 = Some [1] \<and>
   find_results 5 tree3 ''=='' 12 = Some [2] \<and>
   find_results 5 tree3 ''='' 7 = Some []"
  by code_simp

subsection \<open>C5: the scenario of vsmdb.py\<close>

text \<open>
  Claim C5: with \<^verbatim>\<open>b = 3\<close> and the insertions \<^verbatim>\<open>(5,0), (12,1), (7,2), (3,3), (2,4), (9,5)\<close>,
  the root leaf overflows to \<^verbatim>\<open>[5,7,12]\<close> in the third insertion and splits promoting 7;
  the final tree has height 2, root keys \<^verbatim>\<open>[7]\<close>, a left leaf \<^verbatim>\<open>[2,3,5]\<close> and a right leaf
  \<^verbatim>\<open>[7,9,12]\<close>; and \<^verbatim>\<open>find('>=', 7)\<close> returns the pointers of the keys 7, 9, 12.

  As stated this fails: a leaf is split as soon as it holds \<^verbatim>\<open>b = 3\<close> keys, so no node of
  the final tree holds \<^verbatim>\<open>[2,3,5]\<close> or \<^verbatim>\<open>[7,9,12]\<close>, and the children of the root are
  internal nodes.
\<close>

theorem scenario_final_tree_counterexample:
  "returned (inserts 5 (Btree 3) scenario) \<and>
   map values_n (nodes tree6) = [[2], [7], [3], [3, 5], [9, 12], [9], [7]] \<and>
   [2, 3, 5] \<notin> set (map values_n (nodes tree6)) \<and>
   [7, 9, 12] \<notin> set (map values_n (nodes tree6)) \<and>
   root tree6 = Some 6 \<and>
   ptrs (nodes tree6 ! 6) = [2, 5] \<and>
   \<not> is_leaf (nodes tree6 ! 2) \<and> \<not> is_leaf (nodes tree6 ! 5)"
  by code_simp

text \<open>
  Claim C5, amended: in the third insertion the root leaf holds \<^verbatim>\<open>[5,7,12]\<close> and splits
  promoting 7, which leaves the root \<^verbatim>\<open>[7]\<close> over the leaves \<^verbatim>\<open>[5]\<close> and \<^verbatim>\<open>[7,12]\<close>, the
  left leaf's \<^verbatim>\<open>right_sibling\<close> being the right leaf's id. The fifth and the sixth insertion
  split again, and the final tree has height 3: the root \<^verbatim>\<open>[7]\<close> (node 6) over the internal
  nodes \<^verbatim>\<open>[3]\<close> (node 2) and \<^verbatim>\<open>[9]\<close> (node 5), over the leaves \<^verbatim>\<open>[2]\<close>, \<^verbatim>\<open>[3,5]\<close>, \<^verbatim>\<open>[7]\<close>,
  \<^verbatim>\<open>[9,12]\<close> (nodes 0, 3, 1, 4), chained in this order by \<^verbatim>\<open>right_sibling\<close>. On it
  \<^verbatim>\<open>find('>=', 7)\<close> returns the three pointers stored in the leaves \<^verbatim>\<open>[7]\<close> and \<^verbatim>\<open>[9,12]\<close>, in
  the order of the chain.
\<close>

theorem scenario_trace:
  "values_n (nodes overfull_leaf ! 0) = [5, 7, 12] \<and>
   fst (split_halves overfull_leaf 0) = Inr 7 \<and>
   returned (inserts 5 (Btree 3) (take 3 scenario)) \<and>
   map values_n (nodes tree3) = [[5], [7, 12], [7]] \<and>
   map is_leaf (nodes tree3) = [True, True, False] \<and>
   root tree3 = Some 2 \<and>
   ptrs (nodes tree3 ! 2) = [0, 1] \<and>
   right_sibling (nodes tree3 ! 0) = Some 1 \<and>
   returned (inserts 5 (Btree 3) scenario) \<and>
   map values_n (nodes tree6) = [[2], [7], [3], [3, 5], [9, 12], [9], [7]] \<and>
   map is_leaf (nodes tree6) = [True, True, False, True, True, False, False] \<and>
   root tree6 = Some 6 \<and>
   ptrs (nodes tree6 ! 6) = [2, 5] \<and>
   ptrs (nodes tree6 ! 2) = [0, 3] \<and>
   ptrs (nodes tree6 ! 5) = [1, 4] \<and>
   map right_sibling (nodes tree6) = [Some 3, Some 4, None, Some 1, None, None, None] \<and>
   find_results 5 tree6 ''>='' 7 = Some (ptrs (nodes tree6 ! 1) @ ptrs (nodes tree6 ! 4)) \<and>
   map_option length (find_results 5 tree6 ''>='' 7) = Some 3"
  by code_simp

subsection \<open>C6: delete of a pair that is not in the leaf\<close>

text \<open>
  Claim C6: when the pair \<^verbatim>\<open>(key, pointer)\<close> is not in the leaf that search locates,
  delete fails with an explicit NotFound error, and the tree is unchanged.

  As stated this fails: on the tree of the first three insertions, \<^verbatim>\<open>delete(9, 7)\<close> (key
  absent) and \<^verbatim>\<open>delete(12, 9)\<close> (key present, other pointer) both return normally, having
  printed a line.
\<close>

theorem delete_absent_pair_counterexample:
  "btree_delete 5 tree3 9 7 = Some (Inr [''Value not in Tree''], tree3) \<and>
   btree_delete 5 tree3 12 9 = Some (Inr [''Value not in ptr''], tree3) \<and>
   returned (btree_delete 5 tree3 9 7) \<and>
   returned (btree_delete 5 tree3 12 9)"
  by code_simp

text \<open>
  Claim C6, amended: when search locates a leaf in which every position that holds the
  key has a pointer and that pointer differs from the given one (in particular when the
  key is absent from the leaf), delete raises no error: it prints one line,
  \<^verbatim>\<open>Value not in ptr\<close> when the key is in the leaf and \<^verbatim>\<open>Value not in Tree\<close> otherwise,
  returns normally, and the tree is unchanged.
\<close>

theorem delete_absent_pair_prints_and_returns:
  assumes "btree_search fuel t v = Some (Inr (idx, ops), t1)"
    and "\<forall>i < length (values_n (nodes t ! idx)).
           values_n (nodes t ! idx) ! i = v \<longrightarrow>
           i < length (ptrs (nodes t ! idx)) \<and> ptrs (nodes t ! idx) ! i \<noteq> ptr"
  shows "btree_delete fuel t v ptr =
           Some (Inr [if v \<in> set (values_n (nodes t ! idx))
                      then ''Value not in ptr'' else ''Value not in Tree''], t)"
proof -
  from assms(1) have t1: "t1 = t" by (rule btree_search_state)
  have loop: "delete_loop v ptr (enumerate 0 (values_n (nodes t ! idx))) (ptrs (nodes t ! idx)) False =
     (Inr (if v \<in> set (values_n (nodes t ! idx)) then [''Value not in ptr'']
           else [''Value not in Tree'']), ptrs (nodes t ! idx))"
    using delete_loop_no_match[of "values_n (nodes t ! idx)" v 0 "ptrs (nodes t ! idx)" ptr False]
      assms(2)
    by simp
  show ?thesis
    using assms(1) t1 loop by (simp add: btree_delete_def Let_def)
qed

theorem delete_absent_pair_prints_and_returns_witness:
  "btree_delete 5 tree3 12 9 = Some (Inr [''Value not in ptr''], tree3)"
proof -
  have s: "btree_search 5 tree3 12 = Some (Inr (1, 1), tree3)" by code_simp
  have vs: "values_n (nodes tree3 ! 1) = [7, 12]" and ps: "ptrs (nodes tree3 ! 1) = [1, 2]"
    by code_simp+
  have h: "\<forall>i < length (values_n (nodes tree3 ! 1)).
           values_n (nodes tree3 ! 1) ! i = 12 \<longrightarrow>
           i < length (ptrs (nodes tree3 ! 1)) \<and> ptrs (nodes tree3 ! 1) ! i \<noteq> 9"
    unfolding vs ps by (auto simp: nth_Cons' less_Suc_eq)
  from delete_absent_pair_prints_and_returns[OF s h] show ?thesis unfolding vs by simp
qed

subsection \<open>C7: the operator symbols of find\<close>

text \<open>
  Claim C7: on a non-empty tree find accepts exactly the symbols \<^verbatim>\<open>=\<close>, \<^verbatim>\<open><\<close>, \<^verbatim>\<open><=\<close>,
  \<^verbatim>\<open>>\<close>, \<^verbatim>\<open>>=\<close> and fails with an InvalidOperator error for any other symbol.

  As stated this fails: on the tree of the first three insertions \<^verbatim>\<open>find('!=', 7)\<close>
  returns the empty list, and so does \<^verbatim>\<open>find('=', 7)\<close> although key 7 is in the tree; the
  equality lookup is spelled \<^verbatim>\<open>'=='\<close>.
\<close>

theorem find_unknown_operator_counterexample:
  "btree_find 5 tree3 ''!='' 7 = Some (Inr ([], 1), tree3) \<and>
   btree_find 5 tree3 ''='' 7 = Some (Inr ([], 1), tree3) \<and>
   7 \<in> set (values_n (nodes tree3 ! 1)) \<and>
   find_results 5 tree3 ''=='' 7 \<noteq> Some []"
  by code_simp

text \<open>
  Claim C7, amended: find handles the five symbols \<^verbatim>\<open>==\<close>, \<^verbatim>\<open><\<close>, \<^verbatim>\<open><=\<close>, \<^verbatim>\<open>>\<close>, \<^verbatim>\<open>>=\<close>;
  for any other symbol, \<^verbatim>\<open>=\<close> included, it raises no error: whenever the search reaches a
  leaf, it returns the empty list (and prints the comparisons of the search).
\<close>

theorem find_unknown_operator_returns_empty:
  assumes "operator \<notin> {''=='', ''>'', ''>='', ''<'', ''<=''}"
    and "btree_search fuel t v = Some (Inr (leaf_idx, ops), t1)"
  shows "btree_find fuel t operator v = Some (Inr ([], ops), t)"
proof -
  from assms(2) have "t1 = t" by (rule btree_search_state)
  with assms show ?thesis by (simp add: btree_find_def Let_def)
qed

theorem find_unknown_operator_returns_empty_witness:
  "btree_find 5 tree3 ''='' 12 = Some (Inr ([], 1), tree3)"
proof -
  have o: "''='' \<notin> {''=='', ''>'', ''>='', ''<'', ''<=''}" by simp
  have s: "btree_search 5 tree3 12 = Some (Inr (1, 1), tree3)" by code_simp
  from find_unknown_operator_returns_empty[OF o s] show ?thesis .
qed

subsection \<open>C8: operations on the empty tree\<close>

text \<open>
  Claim C8: for every key and operator, a search, find or delete on a tree before the
  first insertion (root still unset) fails with the empty-tree error.

  In the code that error is the \<^verbatim>\<open>TypeError\<close> that \<^verbatim>\<open>self.nodes[self.root]\<close> raises while
  the root is \<^verbatim>\<open>None\<close>; it reaches the caller of each of the three methods, whatever the
  fuel, and the tree stays empty.
\<close>

theorem empty_tree_operations_raise:
  "btree_search fuel (Btree bf) v = Some (Inl TypeError, Btree bf) \<and>
   btree_find fuel (Btree bf) operator v = Some (Inl TypeError, Btree bf) \<and>
   btree_delete fuel (Btree bf) v ptr = Some (Inl TypeError, Btree bf)"
  by (simp add: btree_search_def btree_find_def btree_delete_def Btree_def)

subsection \<open>C9: the order of the results of a range query\<close>

text \<open>
  Claim C9: \<^verbatim>\<open>find('<', key)\<close> and \<^verbatim>\<open>find('<=', key)\<close> return the matching pointers in
  descending key order, \<^verbatim>\<open>find('>', key)\<close> and \<^verbatim>\<open>find('>=', key)\<close> in ascending key order.

  As stated this fails for the left-walk operators: in the tree of one leaf that holds
  \<^verbatim>\<open>(1,0), (2,1), (3,2)\<close> (inserted in this order, \<^verbatim>\<open>b = 5\<close>), \<^verbatim>\<open>find('<', 3)\<close> returns the
  pointers of the keys 1 and 2 in ascending key order, not in descending order.
\<close>

theorem find_less_order_counterexample:
  "map_option chain_pairs (leaf_chain 5 tree_asc) = Some [(1, 0), (2, 1), (3, 2)] \<and>
   find_results 5 tree_asc ''<'' 3 = Some [0, 1] \<and>
   rev (map snd (matching_pairs (compare_with ''<'' 3) (the (leaf_chain 5 tree_asc)))) = [1, 0] \<and>
   find_results 5 tree_asc ''<'' 3 \<noteq>
     Some (rev (map snd (matching_pairs (compare_with ''<'' 3) (the (leaf_chain 5 tree_asc)))))"
  by code_simp

text \<open>
  Claim C9, amended: on a tree where the located leaf and the leaves of the sibling walk
  hold as many pointers as keys, their keys are in non-decreasing order from left to
  right, and every key of the walked leaves satisfies the comparison, the matching
  pointers (those of the pairs of these leaves whose key satisfies the comparison) are
  returned as follows. \<^verbatim>\<open>find('>', key)\<close> and \<^verbatim>\<open>find('>=', key)\<close> return them in ascending
  key order. \<^verbatim>\<open>find('<', key)\<close> and \<^verbatim>\<open>find('<=', key)\<close> return them leaf by leaf in the
  order of the left-sibling walk: the leaves from right to left, that is in descending
  key order, but the pointers of each leaf in ascending key order.
\<close>

theorem find_results_key_order:
  assumes op: "operator \<in> {''>'', ''>='', ''<'', ''<=''}"
    and search: "btree_search fuel t v = Some (Inr (idx, ops), t1)"
    and chain: "sibling_chain (walk_link operator) fuel (nodes t) (nodes t ! idx) = Some (Inr rest)"
    and counts: "\<forall>nd \<in> set (nodes t ! idx # rest). length (values_n nd) = length (ptrs nd)"
    and order: "sorted (map fst (chain_pairs (walked_leaves operator (nodes t ! idx) rest)))"
    and beyond: "\<forall>nd \<in> set rest. \<forall>k \<in> set (values_n nd). compare_with operator v k"
  shows "sorted (map fst (matching_pairs (compare_with operator v)
                            (walked_leaves operator (nodes t ! idx) rest))) \<and>
    map snd (matching_pairs (compare_with operator v) (walked_leaves operator (nodes t ! idx) rest)) =
      concat (map (leaf_matches (compare_with operator v))
                  (walked_leaves operator (nodes t ! idx) rest)) \<and>
    (operator \<in> {''>'', ''>=''} \<longrightarrow>
       find_results fuel t operator v =
         Some (map snd (matching_pairs (compare_with operator v)
                          (walked_leaves operator (nodes t ! idx) rest)))) \<and>
    (operator \<in> {''<'', ''<=''} \<longrightarrow>
       find_results fuel t operator v =
         Some (concat (map (leaf_matches (compare_with operator v))
                           (rev (walked_leaves operator (nodes t ! idx) rest)))))"
proof -
  let ?cmp = "compare_with operator v"
  let ?target = "nodes t ! idx"
  let ?walked = "walked_leaves operator ?target rest"
  have len: "length (values_n ?target) \<le> length (ptrs ?target)" using counts by simp
  have scan: "find_results fuel t operator v =
      Some (leaf_matches ?cmp ?target @ concat (map ptrs rest))"
    by (rule find_results_scan[OF op search len chain])
  have "map ptrs rest = map (leaf_matches ?cmp) rest"
  proof (rule map_cong[OF refl])
    fix nd assume nd: "nd \<in> set rest"
    with counts have "length (values_n nd) = length (ptrs nd)" by simp
    moreover from nd beyond have "\<forall>k \<in> set (values_n nd). ?cmp k" by simp
    ultimately show "ptrs nd = leaf_matches ?cmp nd" by (simp add: leaf_matches_all)
  qed
  with scan have blocks: "find_results fuel t operator v =
      Some (concat (map (leaf_matches ?cmp) (?target # rest)))" by simp
  have 1: "sorted (map fst (matching_pairs ?cmp ?walked))"
    unfolding matching_pairs_def using order by (rule sorted_filter)
  have 2: "map snd (matching_pairs ?cmp ?walked) = concat (map (leaf_matches ?cmp) ?walked)"
    by (rule matching_pairs_blocks)
  have 3: "operator \<in> {''>'', ''>=''} \<longrightarrow>
       find_results fuel t operator v = Some (map snd (matching_pairs ?cmp ?walked))"
    using blocks 2 by (auto simp: walked_leaves_def)
  have 4: "operator \<in> {''<'', ''<=''} \<longrightarrow>
       find_results fuel t operator v = Some (concat (map (leaf_matches ?cmp) (rev ?walked)))"
    using blocks by (auto simp: walked_leaves_def)
  from 1 2 3 4 show ?thesis by blast
qed

theorem find_results_key_order_witness:
  "find_results 5 tree6 ''>='' 3 = Some [4, 3, 1, 2, 5] \<and>
   matching_pairs (compare_with ''>='' 3) (walked_leaves ''>='' (nodes tree6 ! 3) [nodes tree6 ! 1, nodes tree6 ! 4])
     = [(3, 4), (5, 3), (7, 1), (9, 2), (12, 5)] \<and>
   find_results 5 tree6 ''<'' 12 = Some [2, 1, 4, 3, 0] \<and>
   matching_pairs (compare_with ''<'' 12)
      (walked_leaves ''<'' (nodes tree6 ! 4) [nodes tree6 ! 1, nodes tree6 ! 3, nodes tree6 ! 0])
     = [(2, 0), (3, 4), (5, 3), (7, 1), (9, 2)]"
proof -
  have o1: "''>='' \<in> {''>'', ''>='', ''<'', ''<=''}" by simp
  have s1: "btree_search 5 tree6 3 = Some (Inr (3, 2), tree6)" by code_simp
  have c1: "sibling_chain (walk_link ''>='') 5 (nodes tree6) (nodes tree6 ! 3) =
              Some (Inr [nodes tree6 ! 1, nodes tree6 ! 4])" by code_simp
  have n1: "\<forall>nd \<in> set (nodes tree6 ! 3 # [nodes tree6 ! 1, nodes tree6 ! 4]).
              length (values_n nd) = length (ptrs nd)" by code_simp
  have r1: "sorted (map fst (chain_pairs
              (walked_leaves ''>='' (nodes tree6 ! 3) [nodes tree6 ! 1, nodes tree6 ! 4])))"
    by code_simp
  have b1: "\<forall>nd \<in> set [nodes tree6 ! 1, nodes tree6 ! 4].
              \<forall>k \<in> set (values_n nd). compare_with ''>='' 3 k" by code_simp
  have m1: "matching_pairs (compare_with ''>='' 3)
      (walked_leaves ''>='' (nodes tree6 ! 3) [nodes tree6 ! 1, nodes tree6 ! 4])
     = [(3, 4), (5, 3), (7, 1), (9, 2), (12, 5)]" by code_simp
  have o2: "''<'' \<in> {''>'', ''>='', ''<'', ''<=''}" by simp
  have s2: "btree_search 5 tree6 12 = Some (Inr (4, 2), tree6)" by code_simp
  have c2: "sibling_chain (walk_link ''<'') 5 (nodes tree6) (nodes tree6 ! 4) =
              Some (Inr [nodes tree6 ! 1, nodes tree6 ! 3, nodes tree6 ! 0])" by code_simp
  have n2: "\<forall>nd \<in> set (nodes tree6 ! 4 # [nodes tree6 ! 1, nodes tree6 ! 3, nodes tree6 ! 0]).
              length (values_n nd) = length (ptrs nd)" by code_simp
  have r2: "sorted (map fst (chain_pairs
              (walked_leaves ''<'' (nodes tree6 ! 4) [nodes tree6 ! 1, nodes tree6 ! 3, nodes tree6 ! 0])))"
    by code_simp
  have b2: "\<forall>nd \<in> set [nodes tree6 ! 1, nodes tree6 ! 3, nodes tree6 ! 0].
              \<forall>k \<in> set (values_n nd). compare_with ''<'' 12 k" by code_simp
  have m2: "matching_pairs (compare_with ''<'' 12)
      (walked_leaves ''<'' (nodes tree6 ! 4) [nodes tree6 ! 1, nodes tree6 ! 3, nodes tree6 ! 0])
     = [(2, 0), (3, 4), (5, 3), (7, 1), (9, 2)]" by code_simp
  have l2: "concat (map (leaf_matches (compare_with ''<'' 12))
       (rev (walked_leaves ''<'' (nodes tree6 ! 4) [nodes tree6 ! 1, nodes tree6 ! 3, nodes tree6 ! 0])))
     = [2, 1, 4, 3, 0]" by code_simp
  from find_results_key_order[OF o1 s1 c1 n1 r1 b1] m1
  have g1: "find_results 5 tree6 ''>='' 3 = Some [4, 3, 1, 2, 5]" by simp
  from find_results_key_order[OF o2 s2 c2 n2 r2 b2] l2
  have g2: "find_results 5 tree6 ''<'' 12 = Some [2, 1, 4, 3, 0]" by simp
  from g1 m1 g2 m2 show ?thesis by simp
qed

subsection \<open>C10: find and search leave the tree alone\<close>

text \<open>
  Claim C10: find, and the search it uses, are read-only: for every tree, operator and
  key, after the call the arena, every node's keys, pointers, parent and sibling links,
  and the root id are as they were before the call. This holds whether the call returns
  a result or raises.
\<close>

theorem find_read_only:
  "(btree_search fuel t v = Some (r1, t1) \<longrightarrow> t1 = t) \<and>
   (btree_find fuel t operator v = Some (r2, t2) \<longrightarrow> t2 = t)"
proof
  show "btree_search fuel t v = Some (r1, t1) \<longrightarrow> t1 = t"
    using btree_search_state by blast
next
  show "btree_find fuel t operator v = Some (r2, t2) \<longrightarrow> t2 = t"
  proof
    assume f: "btree_find fuel t operator v = Some (r2, t2)"
    show "t2 = t"
    proof (cases "btree_search fuel t v")
      case None
      with f show ?thesis by (simp add: btree_find_def)
    next
      case (Some res)
      obtain r s where res: "res = (r, s)" by (cases res)
      with Some have s: "s = t" using btree_search_state by blast
      show ?thesis
      proof (cases r)
        case (Inl e)
        with f Some res s show ?thesis by (simp add: btree_find_def)
      next
        case (Inr p)
        obtain leaf_idx ops where p: "p = (leaf_idx, ops)" by (cases p)
        from f Some res s Inr p show ?thesis
          by (auto simp: btree_find_def Let_def split: if_splits dest: range_block_state)
      qed
    qed
  qed
qed

theorem find_read_only_witness:
  "btree_search 5 tree6 7 = Some (Inr (1, 2), tree6) \<and>
   btree_find 5 tree6 ''>='' 7 = Some (Inr ([1, 2, 5], 3), tree6)"
proof -
  have s: "btree_search 5 tree6 7 = Some (Inr (1, 2), tree_after (btree_search 5 tree6 7))"
    by code_simp
  have f: "btree_find 5 tree6 ''>='' 7 =
             Some (Inr ([1, 2, 5], 3), tree_after (btree_find 5 tree6 ''>='' 7))"
    by code_simp
  from find_read_only[THEN conjunct1, THEN mp, OF s] s
  have 1: "btree_search 5 tree6 7 = Some (Inr (1, 2), tree6)" by simp
  from find_read_only[THEN conjunct2, THEN mp, OF f] f
  have 2: "btree_find 5 tree6 ''>='' 7 = Some (Inr ([1, 2, 5], 3), tree6)" by simp
  from 1 2 show ?thesis by simp
qed

end
